theory Spec2Isabelle
  imports Main "HOL-Library.Word" "HOL-Library.Signed_Division"
begin

unbundle bit_operations_syntax

section \<open>Data model of csim.c\<close>

text \<open>
  The simulator keeps every cache set as a singly linked list of heap-allocated lines.
  The model keeps that representation: a pointer to a \<open>line_t\<close> is an address, the heap
  maps the addresses of the live lines to their contents, and \<open>0\<close> is the null pointer.
  C values of type \<open>int\<close> are integers whose range is checked where the program computes
  them; values of type \<open>long\<close> are 64-bit words.
\<close>

type_synonym addr = nat
type_synonym long = "64 word"

record line_t =
  dirty_bit :: int
  valid_bit :: int
  tag :: long
  nxt :: addr

record set_t =
  line_count :: int
  first_line :: addr
  last_line :: addr

text \<open>
  Modelled from the spec: \<open>csim_stats_t\<close> is declared in cachelab.h, which is not among the
  sources. The spec gives its five counters (hits, misses, evictions, dirty_bytes,
  dirty_evictions); their C type is unknown, so they are integers without a bound.
\<close>

record csim_stats_t =
  hits :: int
  misses :: int
  evictions :: int
  dirty_bytes :: int
  dirty_evictions :: int

text \<open>The global variables that \<open>set_global_values\<close> assigns.\<close>

record globals =
  g_s :: int
  g_E :: int
  g_b :: int
  total_sets :: int
  total_bytes :: int
  set_mask :: long

text \<open>
  One line of the trace file after \<open>sscanf\<close> has read its fields: the operation
  character, the address (read with \<open>%lx\<close> into a \<open>long\<close>) and the byte count.
  A line from which \<open>sscanf\<close> cannot read the fields leaves them uninitialised; such lines
  are outside the model.
\<close>

record trace_line =
  op_char :: char
  address :: long
  byte_num :: int

text \<open>
  The two ways a run ends without a summary: \<open>Abort\<close> is a call of \<open>abort()\<close>
  (in \<open>xcalloc\<close> and \<open>file_open\<close>); \<open>Undefined\<close> is an operation that C leaves
  undefined (signed overflow, a shift count out of range, reading through a pointer that is
  null or freed, an index outside the array of sets).
\<close>

datatype error = Abort | Undefined

text \<open>
  What the program does not control: whether the \<open>k\<close>-th call of \<open>calloc\<close> succeeds, and
  the trace file (\<open>None\<close> when it cannot be opened).
\<close>

record env =
  calloc_ok :: "nat \<Rightarrow> bool"
  trace_file :: "trace_line list option"

record state =
  sets :: "set_t list"
  heap :: "addr \<Rightarrow> line_t option"
  stats :: csim_stats_t
  allocs :: nat

definition COLD_MISS_TYPE :: int where
  "COLD_MISS_TYPE = - 1"

definition CAPACITY_MISS_TYPE :: int where
  "CAPACITY_MISS_TYPE = - 2"

definition INT_MAX :: int where
  "INT_MAX = 2147483647"

definition INT_MIN :: int where
  "INT_MIN = - 2147483648"

text \<open>Sequencing of steps that can fail: the first failure ends the run.\<close>

definition then_do :: "error + 'a \<Rightarrow> ('a \<Rightarrow> error + 'b) \<Rightarrow> error + 'b" where
  "then_do m f = (case m of Inl e \<Rightarrow> Inl e | Inr x \<Rightarrow> f x)"

section \<open>Configuration\<close>

text \<open>The result of an \<open>int\<close> operation: undefined when it leaves the range of \<open>int\<close>.\<close>

definition int_result :: "int \<Rightarrow> error + int" where
  "int_result x = (if INT_MIN \<le> x \<and> x \<le> INT_MAX then Inr x else Inl Undefined)"

text \<open>
  \<open>pow2\<close> halves its argument with C's division, which truncates towards zero
  (\<open>sdiv\<close>, \<open>smod\<close>), and squares the result of the recursive call.
\<close>

function pow2 :: "int \<Rightarrow> error + int" where
  "pow2 index =
     (if index = 0 then Inr 1
      else case pow2 (index sdiv 2) of
             Inl e \<Rightarrow> Inl e
           | Inr half_res \<Rightarrow>
               if index smod 2 = 0 then int_result (half_res * half_res)
               else (case int_result (2 * half_res) of
                       Inl e \<Rightarrow> Inl e
                     | Inr d \<Rightarrow> int_result (d * half_res)))"
  by pat_completeness auto
termination
  by (relation "measure (\<lambda>i. nat \<bar>i\<bar>)") (auto simp: signed_divide_int_def sgn_if)

text \<open>
  \<open>set_global_values\<close> after the option loop: \<open>s\<close>, \<open>E\<close> and \<open>b\<close> are the values that
  \<open>atoi\<close> returned (0 for an option that was not given). Nothing is checked.
\<close>

definition set_global_values :: "int \<Rightarrow> int \<Rightarrow> int \<Rightarrow> error + globals" where
  "set_global_values s E b =
     (case pow2 s of
        Inl e \<Rightarrow> Inl e
      | Inr ts \<Rightarrow>
          (case pow2 b of
             Inl e \<Rightarrow> Inl e
           | Inr tb \<Rightarrow>
               (case int_result (ts - 1) of
                  Inl e \<Rightarrow> Inl e
                | Inr m \<Rightarrow>
                    Inr \<lparr>g_s = s, g_E = E, g_b = b, total_sets = ts, total_bytes = tb,
                         set_mask = word_of_int m\<rparr>)))"

section \<open>Address decomposition\<close>

text \<open>
  \<open>x >> n\<close> on a \<open>long\<close>: the arithmetic shift, defined for counts from 0 to 63.
\<close>

definition shr_long :: "long \<Rightarrow> int \<Rightarrow> error + long" where
  "shr_long x n = (if 0 \<le> n \<and> n < 64 then Inr (signed_drop_bit (nat n) x) else Inl Undefined)"

text \<open>\<open>parsing_line\<close> returns the values of its three out-parameters.\<close>

definition parsing_line :: "globals \<Rightarrow> trace_line \<Rightarrow> error + (int \<times> long \<times> long)" where
  "parsing_line g r =
     (let is_load = (if op_char r = CHR ''S'' then 0 else 1) in
      case shr_long (address r) (g_b g) of
        Inl e \<Rightarrow> Inl e
      | Inr a \<Rightarrow>
          (let set_num = a AND set_mask g in
           case shr_long a (g_s g) of
             Inl e \<Rightarrow> Inl e
           | Inr tg \<Rightarrow> Inr (is_load, tg, set_num)))"

section \<open>Lines and sets\<close>

text \<open>
  \<open>xcalloc\<close> for one \<open>line_t\<close>: the new line is zeroed and lives at an address that no
  earlier allocation returned.
\<close>

definition xcalloc_line :: "env \<Rightarrow> state \<Rightarrow> error + (addr \<times> state)" where
  "xcalloc_line ev st =
     (if calloc_ok ev (allocs st)
      then (let p = Suc (allocs st) in
            Inr (p, st\<lparr>heap := (heap st)(p \<mapsto> \<lparr>dirty_bit = 0, valid_bit = 0, tag = 0, nxt = 0\<rparr>),
                       allocs := Suc (allocs st)\<rparr>))
      else Inl Abort)"

text \<open>Reading and assigning through a line pointer: undefined when the pointer is not live.\<close>

definition read_line :: "addr \<Rightarrow> state \<Rightarrow> error + line_t" where
  "read_line p st = (case heap st p of None \<Rightarrow> Inl Undefined | Some l \<Rightarrow> Inr l)"

definition upd_line :: "addr \<Rightarrow> (line_t \<Rightarrow> line_t) \<Rightarrow> state \<Rightarrow> error + state" where
  "upd_line p f st =
     (case heap st p of
        None \<Rightarrow> Inl Undefined
      | Some l \<Rightarrow> Inr (st\<lparr>heap := (heap st)(p \<mapsto> f l)\<rparr>))"

definition init_line :: "addr \<Rightarrow> long \<Rightarrow> state \<Rightarrow> error + state" where
  "init_line line tg st = upd_line line (\<lambda>l. l\<lparr>tag := tg, valid_bit := 1, dirty_bit := 0\<rparr>) st"

definition free_line :: "addr \<Rightarrow> state \<Rightarrow> error + state" where
  "free_line p st =
     (if p = 0 then Inr st
      else case heap st p of
             None \<Rightarrow> Inl Undefined
           | Some l \<Rightarrow> Inr (st\<lparr>heap := (heap st)(p := None)\<rparr>))"

text \<open>An assignment to a field of \<open>*this_set\<close>, the set with index \<open>k\<close>.\<close>

definition upd_set :: "nat \<Rightarrow> (set_t \<Rightarrow> set_t) \<Rightarrow> state \<Rightarrow> state" where
  "upd_set k f st = st\<lparr>sets := (sets st)[k := f (sets st ! k)]\<rparr>"

definition upd_stats :: "(csim_stats_t \<Rightarrow> csim_stats_t) \<Rightarrow> state \<Rightarrow> state" where
  "upd_stats f st = st\<lparr>stats := f (stats st)\<rparr>"

text \<open>
  The scan of \<open>miss_type\<close>: \<open>Some i\<close> is \<open>return i\<close> inside the loop, \<open>None\<close> is falling
  out of the loop.
\<close>

function miss_type_loop ::
  "(addr \<Rightarrow> line_t option) \<Rightarrow> long \<Rightarrow> int \<Rightarrow> addr \<Rightarrow> int \<Rightarrow> error + int option" where
  "miss_type_loop h tg lc line i =
     (if i < lc
      then (case h line of
              None \<Rightarrow> Inl Undefined
            | Some l \<Rightarrow> if tag l = tg then Inr (Some i)
                        else miss_type_loop h tg lc (nxt l) (i + 1))
      else Inr None)"
  by pat_completeness auto
termination
  by (relation "measure (\<lambda>(h, tg, lc, line, i). nat (lc - i))") auto

definition miss_type ::
  "globals \<Rightarrow> (addr \<Rightarrow> line_t option) \<Rightarrow> set_t \<Rightarrow> long \<Rightarrow> long \<Rightarrow> error + int" where
  "miss_type g h cset set_num tg =
     (if line_count cset = 0 then Inr (- 1)
      else case miss_type_loop h tg (line_count cset) (first_line cset) 0 of
             Inl e \<Rightarrow> Inl e
           | Inr (Some i) \<Rightarrow> Inr i
           | Inr None \<Rightarrow> if line_count cset = g_E g then Inr (- 2) else Inr (- 1))"

function get_line_loop :: "(addr \<Rightarrow> line_t option) \<Rightarrow> int \<Rightarrow> addr \<Rightarrow> int \<Rightarrow> error + addr" where
  "get_line_loop h pos line i =
     (if i < pos
      then (case h line of
              None \<Rightarrow> Inl Undefined
            | Some l \<Rightarrow> get_line_loop h pos (nxt l) (i + 1))
      else Inr line)"
  by pat_completeness auto
termination
  by (relation "measure (\<lambda>(h, pos, line, i). nat (pos - i))") auto

definition get_line :: "(addr \<Rightarrow> line_t option) \<Rightarrow> set_t \<Rightarrow> int \<Rightarrow> error + addr" where
  "get_line h cset pos = get_line_loop h pos (first_line cset) 0"

section \<open>The three branches of the loop body\<close>

text \<open>
  In each branch \<open>k\<close> is the index of \<open>this_set\<close> in the array of sets. The statements
  follow the source in order; every \<open>st\<close> is the state after the statement before it.
\<close>

definition mark_dirty :: "globals \<Rightarrow> addr \<Rightarrow> state \<Rightarrow> error + state" where
  "mark_dirty g line st =
     upd_line line (\<lambda>l. l\<lparr>dirty_bit := 1\<rparr>)
       (upd_stats (\<lambda>a. a\<lparr>dirty_bytes := dirty_bytes a + total_bytes g\<rparr>) st)"

definition cold_miss :: "env \<Rightarrow> globals \<Rightarrow> nat \<Rightarrow> int \<Rightarrow> long \<Rightarrow> state \<Rightarrow> error + state" where
  "cold_miss ev g k is_load tg st0 =
     then_do (xcalloc_line ev st0) (\<lambda>(new_line, st).
     then_do (init_line new_line tg st) (\<lambda>st.
     then_do
       (if line_count (sets st ! k) = 0
        then Inr (upd_set k (\<lambda>c. c\<lparr>line_count := 1\<rparr>)
                 (upd_set k (\<lambda>c. c\<lparr>last_line := new_line\<rparr>)
                 (upd_set k (\<lambda>c. c\<lparr>first_line := new_line\<rparr>) st)))
        else then_do (int_result (line_count (sets st ! k) + 1)) (\<lambda>n.
             then_do (upd_line (last_line (sets st ! k)) (\<lambda>l. l\<lparr>nxt := new_line\<rparr>)
                        (upd_set k (\<lambda>c. c\<lparr>line_count := n\<rparr>) st)) (\<lambda>st.
             Inr (upd_set k (\<lambda>c. c\<lparr>last_line := new_line\<rparr>) st)))) (\<lambda>st.
     then_do (if is_load = 0 then mark_dirty g new_line st else Inr st) (\<lambda>st.
     Inr (upd_stats (\<lambda>a. a\<lparr>misses := misses a + 1\<rparr>) st)))))"

definition capacity_miss :: "env \<Rightarrow> globals \<Rightarrow> nat \<Rightarrow> int \<Rightarrow> long \<Rightarrow> state \<Rightarrow> error + state" where
  "capacity_miss ev g k is_load tg st0 =
     then_do (xcalloc_line ev st0) (\<lambda>(new_line, st).
     then_do (init_line new_line tg st) (\<lambda>st.
     (let first = first_line (sets st ! k) in
     then_do
       (if line_count (sets st ! k) = 1
        then Inr (upd_set k (\<lambda>c. c\<lparr>last_line := new_line\<rparr>)
                 (upd_set k (\<lambda>c. c\<lparr>first_line := new_line\<rparr>) st))
        else then_do (read_line first st) (\<lambda>fl.
             then_do (upd_line (last_line (sets st ! k)) (\<lambda>l. l\<lparr>nxt := new_line\<rparr>)
                        (upd_set k (\<lambda>c. c\<lparr>first_line := nxt fl\<rparr>) st)) (\<lambda>st.
             Inr (upd_set k (\<lambda>c. c\<lparr>last_line := new_line\<rparr>) st)))) (\<lambda>st.
     (let st = upd_stats (\<lambda>a. a\<lparr>misses := misses a + 1\<rparr>) st;
          st = upd_stats (\<lambda>a. a\<lparr>evictions := evictions a + 1\<rparr>) st in
     then_do (read_line first st) (\<lambda>fl.
     then_do
       (if dirty_bit fl = 1
        then Inr (upd_stats (\<lambda>a. a\<lparr>dirty_bytes := dirty_bytes a - total_bytes g\<rparr>)
                 (upd_stats (\<lambda>a. a\<lparr>dirty_evictions := dirty_evictions a + total_bytes g\<rparr>) st))
        else Inr st) (\<lambda>st.
     then_do (if is_load = 0 then mark_dirty g new_line st else Inr st) (\<lambda>st.
     free_line first st))))))))"

text \<open>The pointer rewiring of a hit; it returns \<open>cur_line\<close> with the new state.\<close>

definition hit_reorder :: "nat \<Rightarrow> int \<Rightarrow> state \<Rightarrow> error + (addr \<times> state)" where
  "hit_reorder k type st =
     (if type = line_count (sets st ! k) - 1 then Inr (last_line (sets st ! k), st)
      else if type = 0 then
        (let cur_line = first_line (sets st ! k) in
         then_do (read_line cur_line st) (\<lambda>cl.
         then_do (upd_line (last_line (sets st ! k)) (\<lambda>l. l\<lparr>nxt := cur_line\<rparr>)
                    (upd_set k (\<lambda>c. c\<lparr>first_line := nxt cl\<rparr>) st)) (\<lambda>st.
         then_do (upd_line cur_line (\<lambda>l. l\<lparr>nxt := 0\<rparr>)
                    (upd_set k (\<lambda>c. c\<lparr>last_line := cur_line\<rparr>) st)) (\<lambda>st.
         Inr (cur_line, st)))))
      else
        then_do (get_line (heap st) (sets st ! k) (type - 1)) (\<lambda>prev_line.
        then_do (read_line prev_line st) (\<lambda>pl.
        (let cur_line = nxt pl in
         then_do (read_line cur_line st) (\<lambda>cl.
         then_do (upd_line prev_line (\<lambda>l. l\<lparr>nxt := nxt cl\<rparr>) st) (\<lambda>st.
         then_do (upd_line (last_line (sets st ! k)) (\<lambda>l. l\<lparr>nxt := cur_line\<rparr>) st) (\<lambda>st.
         then_do (upd_line cur_line (\<lambda>l. l\<lparr>nxt := 0\<rparr>)
                    (upd_set k (\<lambda>c. c\<lparr>last_line := cur_line\<rparr>) st)) (\<lambda>st.
         Inr (cur_line, st)))))))))"

definition hit :: "globals \<Rightarrow> nat \<Rightarrow> int \<Rightarrow> int \<Rightarrow> state \<Rightarrow> error + state" where
  "hit g k type is_load st0 =
     then_do (hit_reorder k type st0) (\<lambda>(cur_line, st).
     (let st = upd_stats (\<lambda>a. a\<lparr>hits := hits a + 1\<rparr>) st in
      if is_load = 0
      then then_do (read_line cur_line st) (\<lambda>cl.
           if dirty_bit cl = 0 then mark_dirty g cur_line st else Inr st)
      else Inr st))"

section \<open>The loop over the trace and main\<close>

text \<open>
  One iteration of the \<open>while\<close> loop of \<open>main\<close>, in two parts. \<open>lookup\<close> is
  the iteration up to the assignment of \<open>type\<close>: it parses the line, takes
  \<open>this_set = sets + set_num\<close> (with \<open>k\<close> the index of that set) and calls
  \<open>miss_type\<close>. \<open>loop_body\<close> then runs the three \<open>if\<close> statements on \<open>type\<close>, one
  after the other as in the source. The printing under \<open>verbose\<close> changes nothing of
  the state and is left out.
\<close>

definition lookup :: "globals \<Rightarrow> state \<Rightarrow> trace_line \<Rightarrow> error + (int \<times> long \<times> nat \<times> int)" where
  "lookup g st r =
     then_do (parsing_line g r) (\<lambda>(is_load, tg, set_num).
     if \<not> (0 \<le> sint set_num \<and> sint set_num < int (length (sets st))) then Inl Undefined
     else
       (let k = nat (sint set_num) in
        then_do (miss_type g (heap st) (sets st ! k) set_num tg) (\<lambda>type.
        Inr (is_load, tg, k, type))))"

definition loop_body :: "env \<Rightarrow> globals \<Rightarrow> state \<Rightarrow> trace_line \<Rightarrow> error + state" where
  "loop_body ev g st0 r =
     then_do (lookup g st0 r) (\<lambda>(is_load, tg, k, type).
     then_do (if type = COLD_MISS_TYPE then cold_miss ev g k is_load tg st0 else Inr st0) (\<lambda>st.
     then_do (if type = CAPACITY_MISS_TYPE then capacity_miss ev g k is_load tg st else Inr st) (\<lambda>st.
     if type \<ge> 0 then hit g k type is_load st else Inr st)))"

fun run :: "env \<Rightarrow> globals \<Rightarrow> state \<Rightarrow> trace_line list \<Rightarrow> error + state" where
  "run ev g st [] = Inr st"
| "run ev g st (r # rs) = then_do (loop_body ev g st r) (\<lambda>st'. run ev g st' rs)"

text \<open>
  The state when the loop starts: \<open>calloc\<close> has zeroed the array of \<open>total_sets\<close> sets and
  the statistics; these are the first two allocations.
\<close>

definition init_state :: "globals \<Rightarrow> state" where
  "init_state g =
     \<lparr>sets = replicate (nat (total_sets g)) \<lparr>line_count = 0, first_line = 0, last_line = 0\<rparr>,
      heap = (\<lambda>p. None),
      stats = \<lparr>hits = 0, misses = 0, evictions = 0, dirty_bytes = 0, dirty_evictions = 0\<rparr>,
      allocs = 2\<rparr>"

text \<open>
  \<open>main\<close> returns the statistics that it hands to \<open>printSummary\<close>. The release of
  the memory after the summary (\<open>free_mem\<close>) is not modelled.
\<close>

definition main :: "env \<Rightarrow> int \<Rightarrow> int \<Rightarrow> int \<Rightarrow> error + csim_stats_t" where
  "main ev s E b =
     then_do (set_global_values s E b) (\<lambda>g.
     if \<not> calloc_ok ev 0 then Inl Abort
     else if \<not> calloc_ok ev 1 then Inl Abort
     else (case trace_file ev of
             None \<Rightarrow> Inl Abort
           | Some tr \<Rightarrow> then_do (run ev g (init_state g) tr) (\<lambda>st. Inr (stats st))))"

section \<open>Abstraction of the linked sets\<close>

text \<open>
  The definitions of this section do not occur in \<open>csim.c\<close>; they describe what the linked
  lists of the program represent. \<open>seg h p as q\<close> says that following \<open>next\<close> from \<open>p\<close>
  visits exactly the addresses \<open>as\<close> and arrives at \<open>q\<close>. \<open>set_ok\<close> relates a \<open>set_t\<close> to the list
  of its lines, first (least recently used) to last (most recently used), and \<open>cache_inv\<close>
  is the invariant of the whole cache: every set is a well-formed list with pairwise different
  tags, different sets share no line, and the heap holds exactly the lines of the sets.
  \<open>lru_order\<close> reads the lines of a set off the heap by following the pointers
  \<open>line_count\<close> times, and \<open>view\<close> keeps their tags and dirty bits. \<open>step_type\<close>, \<open>step_view\<close>
  and \<open>step_stats\<close> give the effect of one trace line on that view and on the counters.
\<close>

primrec seg :: "(addr \<Rightarrow> line_t option) \<Rightarrow> addr \<Rightarrow> addr list \<Rightarrow> addr \<Rightarrow> bool" where
  "seg h p [] q \<longleftrightarrow> p = q"
| "seg h p (a # as) q \<longleftrightarrow> p = a \<and> (case h a of None \<Rightarrow> False | Some l \<Rightarrow> seg h (nxt l) as q)"

fun first_pos :: "'a \<Rightarrow> 'a list \<Rightarrow> nat option" where
  "first_pos x [] = None"
| "first_pos x (y # ys) = (if y = x then Some 0 else map_option Suc (first_pos x ys))"

definition tag_at :: "(addr \<Rightarrow> line_t option) \<Rightarrow> addr \<Rightarrow> long" where
  "tag_at h a = (case h a of None \<Rightarrow> 0 | Some l \<Rightarrow> tag l)"

definition set_ok :: "(addr \<Rightarrow> line_t option) \<Rightarrow> set_t \<Rightarrow> addr list \<Rightarrow> bool" where
  "set_ok h c as \<longleftrightarrow>
     line_count c = int (length as) \<and> seg h (first_line c) as 0 \<and>
     (as \<noteq> [] \<longrightarrow> last_line c = last as) \<and> distinct (map (tag_at h) as)"

definition line_ok :: "line_t \<Rightarrow> bool" where
  "line_ok l \<longleftrightarrow> valid_bit l = 1 \<and> (dirty_bit l = 0 \<or> dirty_bit l = 1)"

definition cache_inv :: "state \<Rightarrow> (nat \<Rightarrow> addr list) \<Rightarrow> bool" where
  "cache_inv st A \<longleftrightarrow>
     (\<forall>k<length (sets st). set_ok (heap st) (sets st ! k) (A k) \<and> distinct (A k)) \<and>
     (\<forall>j<length (sets st). \<forall>k<length (sets st). j \<noteq> k \<longrightarrow> set (A j) \<inter> set (A k) = {}) \<and>
     dom (heap st) = (\<Union>k<length (sets st). set (A k)) \<and>
     (\<forall>a\<in>dom (heap st). 0 < a \<and> a \<le> allocs st) \<and>
     (\<forall>a l. heap st a = Some l \<longrightarrow> line_ok l)"

definition new_line_val :: "int \<Rightarrow> long \<Rightarrow> line_t" where
  "new_line_val is_load tg =
     \<lparr>dirty_bit = (if is_load = 0 then 1 else 0), valid_bit = 1, tag = tg, nxt = 0\<rparr>"

definition miss_stats :: "globals \<Rightarrow> int \<Rightarrow> csim_stats_t \<Rightarrow> csim_stats_t" where
  "miss_stats g is_load a =
     a\<lparr>dirty_bytes := dirty_bytes a + (if is_load = 0 then total_bytes g else 0),
       misses := misses a + 1\<rparr>"

definition kept :: "line_t \<Rightarrow> line_t \<Rightarrow> bool" where
  "kept l l' \<longleftrightarrow> tag l' = tag l \<and> valid_bit l' = valid_bit l \<and> dirty_bit l' = dirty_bit l"

definition dirty_at :: "(addr \<Rightarrow> line_t option) \<Rightarrow> addr \<Rightarrow> int" where
  "dirty_at h a = (case h a of None \<Rightarrow> 0 | Some l \<Rightarrow> dirty_bit l)"

definition evict_stats :: "globals \<Rightarrow> int \<Rightarrow> int \<Rightarrow> csim_stats_t \<Rightarrow> csim_stats_t" where
  "evict_stats g is_load d a =
     a\<lparr>misses := misses a + 1, evictions := evictions a + 1,
       dirty_evictions := dirty_evictions a + (if d = 1 then total_bytes g else 0),
       dirty_bytes := dirty_bytes a - (if d = 1 then total_bytes g else 0)
                        + (if is_load = 0 then total_bytes g else 0)\<rparr>"

definition hit_stats :: "globals \<Rightarrow> int \<Rightarrow> int \<Rightarrow> csim_stats_t \<Rightarrow> csim_stats_t" where
  "hit_stats g is_load d a =
     a\<lparr>hits := hits a + 1,
       dirty_bytes := dirty_bytes a + (if is_load = 0 \<and> d = 0 then total_bytes g else 0)\<rparr>"

definition touch :: "int \<Rightarrow> line_t \<Rightarrow> line_t" where
  "touch is_load l = (if is_load = 0 \<and> dirty_bit l = 0 then l\<lparr>dirty_bit := 1\<rparr> else l)"

definition moved :: "nat \<Rightarrow> 'a list \<Rightarrow> 'a list" where
  "moved j as = take j as @ drop (Suc j) as @ [as ! j]"

fun walk :: "(addr \<Rightarrow> line_t option) \<Rightarrow> addr \<Rightarrow> nat \<Rightarrow> ((addr \<times> line_t) list \<times> addr) option" where
  "walk h p 0 = Some ([], p)"
| "walk h p (Suc n) =
     (case h p of
        None \<Rightarrow> None
      | Some l \<Rightarrow> (case walk h (nxt l) n of
                    None \<Rightarrow> None
                  | Some (ls, q) \<Rightarrow> Some ((p, l) # ls, q)))"

definition lru_order :: "state \<Rightarrow> nat \<Rightarrow> (addr \<times> long \<times> int) list option" where
  "lru_order st k =
     (let c = sets st ! k in
      if length (sets st) \<le> k \<or> line_count c < 0 then None
      else case walk (heap st) (first_line c) (nat (line_count c)) of
             None \<Rightarrow> None
           | Some (ls, q) \<Rightarrow>
               if q = 0 then Some (map (\<lambda>(a, l). (a, tag l, dirty_bit l)) ls) else None)"

definition view :: "(addr \<Rightarrow> line_t option) \<Rightarrow> addr list \<Rightarrow> (addr \<times> long \<times> int) list" where
  "view h as = map (\<lambda>a. (a, tag_at h a, dirty_at h a)) as"

definition hit_view :: "int \<Rightarrow> nat \<Rightarrow> (addr \<times> long \<times> int) list \<Rightarrow> (addr \<times> long \<times> int) list" where
  "hit_view is_load j v =
     take j v @ drop (Suc j) v @
     [(case v ! j of (a, t, d) \<Rightarrow> (a, t, if is_load = 0 then 1 else d))]"

definition new_entry :: "state \<Rightarrow> int \<Rightarrow> long \<Rightarrow> addr \<times> long \<times> int" where
  "new_entry st is_load tg = (Suc (allocs st), tg, if is_load = 0 then 1 else 0)"

definition step_type :: "globals \<Rightarrow> long \<Rightarrow> (addr \<times> long \<times> int) list \<Rightarrow> int" where
  "step_type g tg ls =
     (case first_pos tg (map (fst \<circ> snd) ls) of
        Some j \<Rightarrow> int j
      | None \<Rightarrow> if ls \<noteq> [] \<and> int (length ls) = g_E g then - 2 else - 1)"

definition step_view ::
  "globals \<Rightarrow> state \<Rightarrow> int \<Rightarrow> long \<Rightarrow> (addr \<times> long \<times> int) list \<Rightarrow> (addr \<times> long \<times> int) list" where
  "step_view g st is_load tg ls =
     (case first_pos tg (map (fst \<circ> snd) ls) of
        Some j \<Rightarrow> hit_view is_load j ls
      | None \<Rightarrow> if ls \<noteq> [] \<and> int (length ls) = g_E g
                then tl ls @ [new_entry st is_load tg]
                else ls @ [new_entry st is_load tg])"

definition step_stats ::
  "globals \<Rightarrow> int \<Rightarrow> long \<Rightarrow> (addr \<times> long \<times> int) list \<Rightarrow> csim_stats_t \<Rightarrow> csim_stats_t" where
  "step_stats g is_load tg ls a =
     (case first_pos tg (map (fst \<circ> snd) ls) of
        Some j \<Rightarrow> hit_stats g is_load (snd (snd (ls ! j))) a
      | None \<Rightarrow> if ls \<noteq> [] \<and> int (length ls) = g_E g
                then evict_stats g is_load (snd (snd (hd ls))) a
                else miss_stats g is_load a)"

text \<open>
  The loop of \<open>main\<close> from the state in which it starts.
\<close>

definition run_trace :: "env \<Rightarrow> globals \<Rightarrow> trace_line list \<Rightarrow> error + state" where
  "run_trace ev g tr = run ev g (init_state g) tr"

text \<open>The number of lines of set \<open>k\<close>.\<close>

definition occupancy :: "state \<Rightarrow> nat \<Rightarrow> nat option" where
  "occupancy st k = map_option length (lru_order st k)"

text \<open>The occupancy of set \<open>k\<close> when the loop has processed the trace.\<close>

definition final_occupancy :: "env \<Rightarrow> globals \<Rightarrow> trace_line list \<Rightarrow> nat \<Rightarrow> nat option" where
  "final_occupancy ev g tr k =
     (case run_trace ev g tr of Inl e \<Rightarrow> None | Inr st \<Rightarrow> occupancy st k)"

text \<open>Inputs for the examples: every allocation succeeds; a load and a store of one byte.\<close>

definition ok_env :: env where
  "ok_env = \<lparr>calloc_ok = (\<lambda>k. True), trace_file = None\<rparr>"

definition load :: "long \<Rightarrow> trace_line" where
  "load a = \<lparr>op_char = CHR ''L'', address = a, byte_num = 1\<rparr>"

definition store :: "long \<Rightarrow> trace_line" where
  "store a = \<lparr>op_char = CHR ''S'', address = a, byte_num = 1\<rparr>"

definition geometry :: "int \<Rightarrow> int \<Rightarrow> int \<Rightarrow> globals" where
  "geometry s E b =
     \<lparr>g_s = s, g_E = E, g_b = b, total_sets = 2 ^ nat s, total_bytes = 2 ^ nat b,
      set_mask = word_of_int (2 ^ nat s - 1)\<rparr>"

text \<open>
  The states in which the processed accesses of a trace start, in order: the state
  before the first access, before the second, and so on, up to the first access that fails.
\<close>

fun run_states :: "env \<Rightarrow> globals \<Rightarrow> state \<Rightarrow> trace_line list \<Rightarrow> state list" where
  "run_states ev g st [] = []"
| "run_states ev g st (r # rs) =
     st # (case loop_body ev g st r of Inl e \<Rightarrow> [] | Inr st' \<Rightarrow> run_states ev g st' rs)"

text \<open>
  How many of the three \<open>if\<close> statements of the loop body have a true condition for a
  value of \<open>type\<close>.
\<close>

definition branches_taken :: "int \<Rightarrow> nat" where
  "branches_taken type =
     length (filter id [type = COLD_MISS_TYPE, type = CAPACITY_MISS_TYPE, type \<ge> 0])"

datatype outcome = Hit | ColdMiss | CapacityMiss

definition outcome_of :: "int \<Rightarrow> outcome option" where
  "outcome_of type =
     (if type = COLD_MISS_TYPE then Some ColdMiss
      else if type = CAPACITY_MISS_TYPE then Some CapacityMiss
      else if type \<ge> 0 then Some Hit
      else None)"

text \<open>The value of \<open>type\<close> in the iteration that processes \<open>r\<close> in state \<open>st\<close>.\<close>

definition access_type :: "globals \<Rightarrow> state \<Rightarrow> trace_line \<Rightarrow> int option" where
  "access_type g st r =
     (case lookup g st r of Inl e \<Rightarrow> None | Inr (is_load, tg, k, type) \<Rightarrow> Some type)"

definition trace_types :: "env \<Rightarrow> globals \<Rightarrow> trace_line list \<Rightarrow> int option list" where
  "trace_types ev g tr =
     map (\<lambda>(st, r). access_type g st r) (zip (run_states ev g (init_state g) tr) tr)"

text \<open>How many accesses of the trace had the given outcome.\<close>

definition count_outcome :: "env \<Rightarrow> globals \<Rightarrow> trace_line list \<Rightarrow> outcome \<Rightarrow> nat" where
  "count_outcome ev g tr oc =
     length (filter (\<lambda>t. Option.bind t outcome_of = Some oc) (trace_types ev g tr))"

text \<open>The number of resident lines of all sets together.\<close>

definition resident_lines :: "state \<Rightarrow> nat" where
  "resident_lines st =
     sum_list (map (\<lambda>k. case occupancy st k of None \<Rightarrow> 0 | Some n \<Rightarrow> n) [0..<length (sets st)])"

definition step_outcome :: "globals \<Rightarrow> long \<Rightarrow> (addr \<times> long \<times> int) list \<Rightarrow> outcome" where
  "step_outcome g tg ls =
     (case first_pos tg (map (fst \<circ> snd) ls) of
        Some j \<Rightarrow> Hit
      | None \<Rightarrow> if ls \<noteq> [] \<and> int (length ls) = g_E g then CapacityMiss else ColdMiss)"

text \<open>
  The address decomposition as the specification writes it,
  \<open>set_index = (A >> b) & ((1 << s) - 1)\<close> and \<open>tag = A >> (s + b)\<close>, on the unsigned
  integer \<open>A\<close> that the specification takes an address to be. These two definitions follow
  the specification, not the program; \<open>parsing_line\<close> above is the program.
\<close>

definition spec_set_index :: "nat \<Rightarrow> nat \<Rightarrow> nat \<Rightarrow> nat" where
  "spec_set_index A s b = drop_bit b A AND (push_bit s 1 - 1)"

definition spec_tag :: "nat \<Rightarrow> nat \<Rightarrow> nat \<Rightarrow> nat" where
  "spec_tag A s b = drop_bit (s + b) A"

text \<open>An instruction fetch of one byte, for the examples.\<close>

definition fetch :: "long \<Rightarrow> trace_line" where
  "fetch a = \<lparr>op_char = CHR ''I'', address = a, byte_num = 1\<rparr>"

text \<open>The number of lines of a set, and of the whole cache, whose dirty bit is 1.\<close>

definition dirty_count :: "(addr \<times> long \<times> int) list \<Rightarrow> nat" where
  "dirty_count ls = length (filter (\<lambda>(a, t, d). d = 1) ls)"

definition dirty_lines :: "state \<Rightarrow> nat" where
  "dirty_lines st =
     sum_list (map (\<lambda>k. case lru_order st k of None \<Rightarrow> 0 | Some ls \<Rightarrow> dirty_count ls)
                   [0..<length (sets st)])"

text \<open>
  The access \<open>r\<close> in state \<open>st\<close> is a capacity miss whose victim, the first line of the
  set, is dirty.
\<close>

definition evicts_dirty :: "globals \<Rightarrow> state \<Rightarrow> trace_line \<Rightarrow> bool" where
  "evicts_dirty g st r =
     (case lookup g st r of
        Inl e \<Rightarrow> False
      | Inr (is_load, tg, k, type) \<Rightarrow>
          type = CAPACITY_MISS_TYPE \<and>
          (case lru_order st k of Some ((a, t, d) # ls) \<Rightarrow> d = 1 | _ \<Rightarrow> False))"

text \<open>How many accesses of the trace evicted a dirty line.\<close>

definition dirty_evicted :: "env \<Rightarrow> globals \<Rightarrow> trace_line list \<Rightarrow> nat" where
  "dirty_evicted ev g tr =
     length (filter (\<lambda>(st, r). evicts_dirty g st r) (zip (run_states ev g (init_state g) tr) tr))"

text \<open>The access \<open>r\<close> in state \<open>st\<close> is a store that hits a line whose dirty bit is 1.\<close>

definition store_hits_dirty :: "globals \<Rightarrow> state \<Rightarrow> trace_line \<Rightarrow> bool" where
  "store_hits_dirty g st r =
     (case lookup g st r of
        Inl e \<Rightarrow> False
      | Inr (is_load, tg, k, type) \<Rightarrow>
          is_load = 0 \<and> 0 \<le> type \<and>
          (case lru_order st k of
             None \<Rightarrow> False
           | Some ls \<Rightarrow> nat type < length ls \<and> snd (snd (ls ! nat type)) = 1))"

text \<open>The trace line \<open>r\<close> is an access to the block with tag \<open>tg\<close> of set \<open>k\<close>.\<close>

definition refers :: "globals \<Rightarrow> trace_line \<Rightarrow> nat \<Rightarrow> long \<Rightarrow> bool" where
  "refers g r k tg =
     (case parsing_line g r of
        Inl e \<Rightarrow> False
      | Inr (is_load, tg', sn) \<Rightarrow> 0 \<le> sint sn \<and> nat (sint sn) = k \<and> tg' = tg)"

text \<open>
  The position in the trace of the last access to the block with tag \<open>tg\<close> of set \<open>k\<close>;
  \<open>None\<close> when the trace has no such access.
\<close>

definition last_ref :: "globals \<Rightarrow> trace_line list \<Rightarrow> nat \<Rightarrow> long \<Rightarrow> nat option" where
  "last_ref g tr k tg =
     (case filter (\<lambda>i. refers g (tr ! i) k tg) (rev [0..<length tr]) of
        [] \<Rightarrow> None
      | i # rest \<Rightarrow> Some i)"

text \<open>Both blocks were referenced, the first one longer ago.\<close>

definition older :: "nat option \<Rightarrow> nat option \<Rightarrow> bool" where
  "older x y = (case (x, y) of (Some i, Some j) \<Rightarrow> i < j | _ \<Rightarrow> False)"

definition ref_times ::
  "globals \<Rightarrow> trace_line list \<Rightarrow> nat \<Rightarrow> (addr \<times> long \<times> int) list \<Rightarrow> nat option list" where
  "ref_times g tr k ls = map (\<lambda>x. last_ref g tr k (fst (snd x))) ls"

definition in_lru_order :: "globals \<Rightarrow> trace_line list \<Rightarrow> nat \<Rightarrow> (addr \<times> long \<times> int) list \<Rightarrow> bool" where
  "in_lru_order g tr k ls \<longleftrightarrow>
     sorted_wrt older (ref_times g tr k ls) \<and> None \<notin> set (ref_times g tr k ls)"

section \<open>Lemmas\<close>

lemma then_do_Inr [simp]: "then_do (Inr x) f = f x"
  by (simp add: then_do_def)

lemma then_do_Inl [simp]: "then_do (Inl e) f = Inl e"
  by (simp add: then_do_def)

lemma then_do_eq_Inr: "then_do m f = Inr y \<longleftrightarrow> (\<exists>x. m = Inr x \<and> f x = Inr y)"
  by (cases m) simp_all

lemma seg_append: "seg h p (as @ bs) q \<longleftrightarrow> (\<exists>r. seg h p as r \<and> seg h r bs q)"
  by (induction as arbitrary: p) (auto split: option.splits)

lemma seg_live: "seg h p as q \<Longrightarrow> a \<in> set as \<Longrightarrow> \<exists>l. h a = Some l"
  by (induction as arbitrary: p) (auto split: option.splits)

lemma seg_upd_other: "a \<notin> set as \<Longrightarrow> seg (h(a := v)) p as q = seg h p as q"
  by (induction as arbitrary: p) (auto split: option.splits)

lemma seg_upd_same_nxt:
  "h a = Some l \<Longrightarrow> nxt l' = nxt l \<Longrightarrow> seg (h(a \<mapsto> l')) p as q = seg h p as q"
  by (induction as arbitrary: p) (auto split: option.splits)

lemma seg_end_unique: "seg h p as q \<Longrightarrow> seg h p as q' \<Longrightarrow> q = q'"
  by (induction as arbitrary: p) (auto split: option.splits)

declare miss_type_loop.simps [simp del] get_line_loop.simps [simp del] pow2.simps [simp del]

lemma miss_type_loop_seg:
  "seg h line as q \<Longrightarrow> int (length as) = lc - i \<Longrightarrow>
   miss_type_loop h tg lc line i = Inr (map_option (\<lambda>j. i + int j) (first_pos tg (map (tag_at h) as)))"
proof (induction as arbitrary: line i)
  case Nil
  then show ?case by (subst miss_type_loop.simps) simp
next
  case (Cons a as)
  then obtain l where l: "line = a" "h a = Some l" "seg h (nxt l) as q"
    by (auto split: option.splits)
  have lt: "i < lc" using Cons.prems(2) by simp
  have len: "int (length as) = lc - (i + 1)" using Cons.prems(2) by simp
  have ta: "tag_at h a = tag l" using l by (simp add: tag_at_def)
  show ?case
  proof (cases "tag l = tg")
    case True
    with l lt ta show ?thesis by (subst miss_type_loop.simps) simp
  next
    case False
    have "miss_type_loop h tg lc line i = miss_type_loop h tg lc (nxt l) (i + 1)"
      using l lt False by (subst miss_type_loop.simps) simp
    also have "\<dots> = Inr (map_option (\<lambda>j. (i + 1) + int j) (first_pos tg (map (tag_at h) as)))"
      by (rule Cons.IH [OF l(3) len])
    finally show ?thesis using False ta
      by (simp add: option.map_comp comp_def add.assoc)
  qed
qed

lemma get_line_loop_seg:
  "seg h line as q \<Longrightarrow> i \<le> pos \<Longrightarrow> nat (pos - i) \<le> length as \<Longrightarrow>
   get_line_loop h pos line i = Inr ((as @ [q]) ! nat (pos - i))"
proof (induction as arbitrary: line i)
  case Nil
  then show ?case by (subst get_line_loop.simps) simp
next
  case (Cons a as)
  then obtain l where l: "line = a" "h a = Some l" "seg h (nxt l) as q"
    by (auto split: option.splits)
  show ?case
  proof (cases "i < pos")
    case True
    have "get_line_loop h pos line i = get_line_loop h pos (nxt l) (i + 1)"
      using l True by (subst get_line_loop.simps) simp
    also have "\<dots> = Inr ((as @ [q]) ! nat (pos - (i + 1)))"
      using Cons.prems True by (intro Cons.IH [OF l(3)]) auto
    also have "nat (pos - (i + 1)) = nat (pos - i) - 1"
      by simp
    finally show ?thesis using True
      by (simp add: nth_Cons') 
  next
    case False
    with Cons.prems l show ?thesis by (subst get_line_loop.simps) simp
  qed
qed

lemma seg_cong: "(\<forall>a\<in>set as. h' a = h a) \<Longrightarrow> seg h' p as q = seg h p as q"
  by (induction as arbitrary: p) (auto split: option.splits)

lemma seg_snoc:
  "seg h p (as @ [a]) q \<longleftrightarrow> seg h p as a \<and> (\<exists>l. h a = Some l \<and> nxt l = q)"
  by (auto simp: seg_append split: option.splits)

lemma set_ok_cong:
  "set_ok h c as \<Longrightarrow> \<forall>a\<in>set as. h' a = h a \<Longrightarrow> set_ok h' c as"
proof -
  assume ok: "set_ok h c as" and eq: "\<forall>a\<in>set as. h' a = h a"
  have m: "map (tag_at h') as = map (tag_at h) as"
    by (rule map_cong) (simp_all add: tag_at_def eq)
  show ?thesis
    using ok unfolding set_ok_def m seg_cong [OF eq] .
qed

lemma cache_inv_update:
  assumes I: "cache_inv st A" and k: "k < length (sets st)"
    and sets': "sets st' = (sets st)[k := c']"
    and ok: "set_ok (heap st') c' as'" and dist: "distinct as'"
    and frame: "\<forall>a. a \<notin> set (A k) \<longrightarrow> a \<notin> set as' \<longrightarrow> heap st' a = heap st a"
    and fresh: "set as' \<subseteq> set (A k) \<union> {a. heap st a = None}"
    and dom': "dom (heap st') = (dom (heap st) - set (A k)) \<union> set as'"
    and range: "\<forall>a\<in>set as'. 0 < a \<and> a \<le> allocs st'" "allocs st \<le> allocs st'"
    and bits: "\<forall>a\<in>set as'. \<forall>l. heap st' a = Some l \<longrightarrow> line_ok l"
  shows "cache_inv st' (A(k := as'))"
proof -
  let ?n = "length (sets st)"
  have len: "length (sets st') = ?n" by (simp add: sets')
  have disj: "\<And>j. j < ?n \<Longrightarrow> j \<noteq> k \<Longrightarrow> set (A j) \<inter> set (A k) = {}"
    using I k by (simp add: cache_inv_def)
  have domA: "dom (heap st) = (\<Union>k<?n. set (A k))"
    using I by (simp add: cache_inv_def)
  have other: "set (A j) \<inter> set as' = {}" if j: "j < ?n" "j \<noteq> k" for j
  proof -
    have "set (A j) \<subseteq> dom (heap st)" using domA j by auto
    then have "set (A j) \<inter> {a. heap st a = None} = {}" by auto
    with disj [OF j] fresh show ?thesis by blast
  qed
  have 1: "set_ok (heap st') (sets st' ! j) ((A(k := as')) j) \<and> distinct ((A(k := as')) j)"
    if j: "j < ?n" for j
  proof (cases "j = k")
    case True
    with ok dist k show ?thesis by (simp add: sets')
  next
    case False
    have "\<forall>a\<in>set (A j). heap st' a = heap st a"
      using disj [OF j False] other [OF j False] frame by blast
    moreover have "set_ok (heap st) (sets st ! j) (A j)" "distinct (A j)"
      using I j by (simp_all add: cache_inv_def)
    ultimately show ?thesis using False
      by (simp add: sets' set_ok_cong)
  qed
  have 2: "set ((A(k := as')) i) \<inter> set ((A(k := as')) j) = {}"
    if "i < ?n" "j < ?n" "i \<noteq> j" for i j
  proof -
    have "set (A i) \<inter> set (A j) = {}" using I that by (simp add: cache_inv_def)
    with that other [of i] other [of j] show ?thesis
      by (auto simp: Int_commute)
  qed
  have 3: "dom (heap st') = (\<Union>j<?n. set ((A(k := as')) j))"
  proof -
    have "(\<Union>j<?n. set (A j)) - set (A k) = (\<Union>j\<in>{..<?n} - {k}. set (A j))"
      using disj by auto
    moreover have "(\<Union>j<?n. set ((A(k := as')) j)) = (\<Union>j\<in>{..<?n} - {k}. set (A j)) \<union> set as'"
      using k by (auto split: if_splits)
    ultimately show ?thesis using dom' domA by simp
  qed
  have 4: "\<forall>a\<in>dom (heap st'). 0 < a \<and> a \<le> allocs st'"
  proof
    fix a assume "a \<in> dom (heap st')"
    with dom' consider "a \<in> dom (heap st)" | "a \<in> set as'" by auto
    then show "0 < a \<and> a \<le> allocs st'"
    proof cases
      case 1
      with I have "0 < a \<and> a \<le> allocs st" by (simp add: cache_inv_def)
      with range(2) show ?thesis by simp
    next
      case 2
      with range(1) show ?thesis by simp
    qed
  qed
  have 5: "line_ok l" if "heap st' a = Some l" for a l
  proof (cases "a \<in> set as'")
    case True
    with bits that show ?thesis by blast
  next
    case False
    with that dom' have "a \<notin> set (A k)" by auto
    with False frame that have "heap st a = Some l" by simp
    with I show ?thesis by (simp add: cache_inv_def)
  qed
  show ?thesis
    unfolding cache_inv_def len using 1 2 3 4 5 by blast
qed

lemmas blk_defs = xcalloc_line_def init_line_def upd_line_def read_line_def upd_set_def
  upd_stats_def mark_dirty_def free_line_def Let_def

lemma rel_kept_same: "rel_option kept x x"
  by (cases x) (simp_all add: kept_def)

lemma cold_miss_abort: "\<not> calloc_ok ev (allocs st) \<Longrightarrow> cold_miss ev g k is_load tg st = Inl Abort"
  by (simp add: cold_miss_def blk_defs)

lemma cold_miss_empty:
  assumes "k < length (sets st)" "line_count (sets st ! k) = 0" "calloc_ok ev (allocs st)"
  shows "cold_miss ev g k is_load tg st =
           Inr (st\<lparr>allocs := Suc (allocs st),
                   sets := (sets st)[k := (sets st ! k)\<lparr>first_line := Suc (allocs st),
                             last_line := Suc (allocs st), line_count := 1\<rparr>],
                   heap := (heap st)(Suc (allocs st) \<mapsto> new_line_val is_load tg),
                   stats := miss_stats g is_load (stats st)\<rparr>)"
  using assms by (simp add: cold_miss_def blk_defs new_line_val_def miss_stats_def)

lemma cold_miss_nonempty:
  assumes "k < length (sets st)" "line_count (sets st ! k) \<noteq> 0" "calloc_ok ev (allocs st)"
    "heap st (last_line (sets st ! k)) = Some ll" "last_line (sets st ! k) \<le> allocs st"
  shows "cold_miss ev g k is_load tg st =
          (if INT_MIN \<le> line_count (sets st ! k) + 1 \<and> line_count (sets st ! k) + 1 \<le> INT_MAX
           then Inr (st\<lparr>allocs := Suc (allocs st),
                   sets := (sets st)[k := (sets st ! k)\<lparr>line_count := line_count (sets st ! k) + 1,
                             last_line := Suc (allocs st)\<rparr>],
                   heap := (heap st)(last_line (sets st ! k) \<mapsto> ll\<lparr>nxt := Suc (allocs st)\<rparr>,
                             Suc (allocs st) \<mapsto> new_line_val is_load tg),
                   stats := miss_stats g is_load (stats st)\<rparr>)
           else Inl Undefined)"
  using assms
  by (auto simp add: cold_miss_def blk_defs new_line_val_def miss_stats_def int_result_def fun_upd_twist)

lemma seg_snocI: "seg h p as a \<Longrightarrow> h a = Some l \<Longrightarrow> nxt l = q \<Longrightarrow> seg h p (as @ [a]) q"
  by (simp add: seg_snoc)

lemma distinct_map_cong:
  assumes "\<And>a. a \<in> set as \<Longrightarrow> f' a = f a"
  shows "distinct (map f' as) = distinct (map f as)"
proof -
  have "map f' as = map f as" by (rule map_cong) (simp_all add: assms)
  then show ?thesis by (simp only:)
qed

lemma set_ok_last:
  assumes "set_ok h c as" "as \<noteq> []"
  obtains bs ll where "as = bs @ [last_line c]" "seg h (first_line c) bs (last_line c)"
    "h (last_line c) = Some ll" "nxt ll = 0"
proof -
  from assms obtain bs where bs: "as = bs @ [last_line c]"
    by (metis append_butlast_last_id set_ok_def)
  with assms(1) have "seg h (first_line c) (bs @ [last_line c]) 0"
    by (simp add: set_ok_def)
  then obtain ll where "seg h (first_line c) bs (last_line c)" "h (last_line c) = Some ll" "nxt ll = 0"
    unfolding seg_snoc by blast
  with bs that show ?thesis by blast
qed

lemma cache_inv_fresh:
  assumes "cache_inv st A" shows "heap st (Suc (allocs st)) = None"
proof (rule ccontr)
  assume "heap st (Suc (allocs st)) \<noteq> None"
  then have "Suc (allocs st) \<in> dom (heap st)" by auto
  with assms have "Suc (allocs st) \<le> allocs st" by (simp add: cache_inv_def)
  then show False by simp
qed

lemma cache_inv_set:
  assumes "cache_inv st A" "k < length (sets st)"
  shows "set_ok (heap st) (sets st ! k) (A k)" "distinct (A k)" "set (A k) \<subseteq> dom (heap st)"
    "\<forall>a\<in>set (A k). 0 < a \<and> a \<le> allocs st"
proof -
  show "set_ok (heap st) (sets st ! k) (A k)" "distinct (A k)"
    using assms by (simp_all add: cache_inv_def)
  show d: "set (A k) \<subseteq> dom (heap st)"
    using assms by (auto simp: cache_inv_def)
  have "\<forall>a\<in>dom (heap st). 0 < a \<and> a \<le> allocs st"
    using assms by (simp add: cache_inv_def)
  with d show "\<forall>a\<in>set (A k). 0 < a \<and> a \<le> allocs st" by blast
qed

lemma cold_miss_inv:
  assumes I: "cache_inv st A" and k: "k < length (sets st)"
    and ok: "calloc_ok ev (allocs st)" and rng: "int (length (A k)) < INT_MAX"
    and nt: "tg \<notin> tag_at (heap st) ` set (A k)"
  shows "\<exists>st'. cold_miss ev g k is_load tg st = Inr st' \<and>
           cache_inv st' (A(k := A k @ [Suc (allocs st)])) \<and>
           length (sets st') = length (sets st) \<and> allocs st' = Suc (allocs st) \<and>
           heap st' (Suc (allocs st)) = Some (new_line_val is_load tg) \<and>
           (\<forall>a. a \<noteq> Suc (allocs st) \<longrightarrow> rel_option kept (heap st a) (heap st' a)) \<and>
           stats st' = miss_stats g is_load (stats st)"
proof -
  let ?new = "Suc (allocs st)"
  let ?h = "heap st"
  let ?c = "sets st ! k"
  note S = cache_inv_set [OF I k]
  have fresh: "?h ?new = None" by (rule cache_inv_fresh [OF I])
  then have new_notin: "?new \<notin> set (A k)" using S(3) by auto
  have lc: "line_count ?c = int (length (A k))" using S(1) by (simp add: set_ok_def)
  have nv: "line_ok (new_line_val is_load tg)"
    by (simp add: line_ok_def new_line_val_def)
  show ?thesis
  proof (cases "A k = []")
    case True
    define st' where "st' = st\<lparr>allocs := ?new,
        sets := (sets st)[k := ?c\<lparr>first_line := ?new, last_line := ?new, line_count := 1\<rparr>],
        heap := ?h(?new \<mapsto> new_line_val is_load tg),
        stats := miss_stats g is_load (stats st)\<rparr>"
    have res: "cold_miss ev g k is_load tg st = Inr st'"
      unfolding st'_def using k lc True ok by (intro cold_miss_empty) simp_all
    have "cache_inv st' (A(k := [?new]))"
    proof (rule cache_inv_update [OF I k])
      show "sets st' = (sets st)[k := ?c\<lparr>first_line := ?new, last_line := ?new, line_count := 1\<rparr>]"
        by (simp add: st'_def)
      show "set_ok (heap st') (?c\<lparr>first_line := ?new, last_line := ?new, line_count := 1\<rparr>) [?new]"
        by (simp add: set_ok_def st'_def new_line_val_def)
    qed (use fresh nv True in \<open>auto simp: st'_def\<close>)
    moreover have "\<forall>a. a \<noteq> ?new \<longrightarrow> rel_option kept (?h a) (heap st' a)"
      by (auto simp: st'_def rel_kept_same)
    ultimately show ?thesis using res True
      by (auto simp: st'_def)
  next
    case False
    from set_ok_last [OF S(1) False] obtain bs ll where
      bs: "A k = bs @ [last_line ?c]" "seg ?h (first_line ?c) bs (last_line ?c)"
        "?h (last_line ?c) = Some ll" "nxt ll = 0"
      by blast
    let ?lst = "last_line ?c"
    have lst_le: "?lst \<le> allocs st"
      using I bs(3) by (auto simp: cache_inv_def)
    have lst_notin: "?lst \<notin> set bs" using S(2) bs(1) by simp
    define st' where "st' = st\<lparr>allocs := ?new,
        sets := (sets st)[k := ?c\<lparr>line_count := line_count ?c + 1, last_line := ?new\<rparr>],
        heap := ?h(?lst \<mapsto> ll\<lparr>nxt := ?new\<rparr>, ?new \<mapsto> new_line_val is_load tg),
        stats := miss_stats g is_load (stats st)\<rparr>"
    have "INT_MIN \<le> line_count ?c + 1 \<and> line_count ?c + 1 \<le> INT_MAX"
      using lc rng by (simp add: INT_MIN_def)
    then have res: "cold_miss ev g k is_load tg st = Inr st'"
      unfolding st'_def using k lc False ok bs(3) lst_le
      by (subst cold_miss_nonempty) simp_all
    have tags: "tag_at (heap st') a = tag_at ?h a" if "a \<in> set (A k)" for a
      using that new_notin bs(3) by (auto simp: st'_def tag_at_def)
    have "cache_inv st' (A(k := A k @ [?new]))"
    proof (rule cache_inv_update [OF I k])
      show "sets st' = (sets st)[k := ?c\<lparr>line_count := line_count ?c + 1, last_line := ?new\<rparr>]"
        by (simp add: st'_def)
      have "seg (heap st') (first_line ?c) bs ?lst = seg ?h (first_line ?c) bs ?lst"
        using lst_notin new_notin bs(1) by (intro seg_cong) (auto simp: st'_def)
      then have s1: "seg (heap st') (first_line ?c) bs ?lst"
        using bs(2) by simp
      have h1: "heap st' ?lst = Some (ll\<lparr>nxt := ?new\<rparr>)"
        using lst_le by (simp add: st'_def)
      have s2: "seg (heap st') (first_line ?c) (A k) ?new"
        unfolding bs(1) by (rule seg_snocI [OF s1 h1]) simp
      have h2: "heap st' ?new = Some (new_line_val is_load tg)"
        by (simp add: st'_def)
      have "seg (heap st') (first_line ?c) (A k @ [?new]) 0"
        by (rule seg_snocI [OF s2 h2]) (simp add: new_line_val_def)
      moreover have "distinct (map (tag_at (heap st')) (A k))"
        using S(1) tags by (simp add: set_ok_def distinct_map_cong [of "A k" "tag_at (heap st')" "tag_at ?h"])
      moreover have "tag_at (heap st') ` set (A k) = tag_at ?h ` set (A k)"
        using tags by (intro image_cong) simp_all
      moreover have "tag_at (heap st') ?new = tg"
        by (simp add: st'_def tag_at_def new_line_val_def)
      ultimately show "set_ok (heap st') (?c\<lparr>line_count := line_count ?c + 1, last_line := ?new\<rparr>)
          (A k @ [?new])"
        using lc nt by (simp add: set_ok_def)
      show "distinct (A k @ [?new])" using S(2) new_notin by simp
      show "\<forall>a. a \<notin> set (A k) \<longrightarrow> a \<notin> set (A k @ [?new]) \<longrightarrow> heap st' a = ?h a"
        using bs(1) by (auto simp: st'_def)
      show "set (A k @ [?new]) \<subseteq> set (A k) \<union> {a. ?h a = None}"
        using fresh by auto
      show "dom (heap st') = dom ?h - set (A k) \<union> set (A k @ [?new])"
        using S(3) bs(1) by (auto simp: st'_def)
      show "\<forall>a\<in>set (A k @ [?new]). 0 < a \<and> a \<le> allocs st'"
        using S(4) by (auto simp: st'_def)
      show "allocs st \<le> allocs st'" by (simp add: st'_def)
      show "\<forall>a\<in>set (A k @ [?new]). \<forall>l. heap st' a = Some l \<longrightarrow> line_ok l"
        using I nv bs(3) by (auto simp: st'_def cache_inv_def line_ok_def)
    qed
    moreover have "\<forall>a. a \<noteq> ?new \<longrightarrow> rel_option kept (?h a) (heap st' a)"
      using bs(3) by (auto simp: st'_def kept_def rel_kept_same)
    ultimately show ?thesis using res lst_le
      by (auto simp: st'_def)
  qed
qed

lemma capacity_miss_abort:
  "\<not> calloc_ok ev (allocs st) \<Longrightarrow> capacity_miss ev g k is_load tg st = Inl Abort"
  by (simp add: capacity_miss_def blk_defs)

lemma capacity_miss_single:
  assumes "k < length (sets st)" "line_count (sets st ! k) = 1" "calloc_ok ev (allocs st)"
    "heap st (first_line (sets st ! k)) = Some fl" "first_line (sets st ! k) \<le> allocs st"
    "0 < first_line (sets st ! k)"
  shows "capacity_miss ev g k is_load tg st =
           Inr (st\<lparr>allocs := Suc (allocs st),
                   sets := (sets st)[k := (sets st ! k)\<lparr>first_line := Suc (allocs st),
                             last_line := Suc (allocs st)\<rparr>],
                   heap := (heap st)(Suc (allocs st) \<mapsto> new_line_val is_load tg,
                             first_line (sets st ! k) := None),
                   stats := evict_stats g is_load (dirty_bit fl) (stats st)\<rparr>)"
  using assms
  by (auto simp add: capacity_miss_def blk_defs new_line_val_def evict_stats_def)

lemma capacity_miss_several:
  assumes "k < length (sets st)" "line_count (sets st ! k) \<noteq> 1" "calloc_ok ev (allocs st)"
    "heap st (first_line (sets st ! k)) = Some fl" "first_line (sets st ! k) \<le> allocs st"
    "0 < first_line (sets st ! k)"
    "heap st (last_line (sets st ! k)) = Some ll" "last_line (sets st ! k) \<le> allocs st"
    "last_line (sets st ! k) \<noteq> first_line (sets st ! k)"
  shows "capacity_miss ev g k is_load tg st =
           Inr (st\<lparr>allocs := Suc (allocs st),
                   sets := (sets st)[k := (sets st ! k)\<lparr>first_line := nxt fl,
                             last_line := Suc (allocs st)\<rparr>],
                   heap := (heap st)(last_line (sets st ! k) \<mapsto> ll\<lparr>nxt := Suc (allocs st)\<rparr>,
                             Suc (allocs st) \<mapsto> new_line_val is_load tg,
                             first_line (sets st ! k) := None),
                   stats := evict_stats g is_load (dirty_bit fl) (stats st)\<rparr>)"
  using assms
  by (auto simp add: capacity_miss_def blk_defs new_line_val_def evict_stats_def fun_upd_twist)

lemma set_ok_first:
  assumes "set_ok h c as" "as \<noteq> []"
  obtains fl where "first_line c = hd as" "h (hd as) = Some fl" "seg h (nxt fl) (tl as) 0"
proof -
  from assms(2) obtain f rest where as: "as = f # rest" by (cases as) auto
  from assms(1) have "seg h (first_line c) (f # rest) 0" by (simp add: set_ok_def as)
  then obtain fl where "first_line c = f" "h f = Some fl" "seg h (nxt fl) rest 0"
    by (auto split: option.splits)
  with as that show ?thesis by simp
qed

lemma capacity_miss_inv:
  assumes I: "cache_inv st A" and k: "k < length (sets st)"
    and ok: "calloc_ok ev (allocs st)" and ne: "A k \<noteq> []"
    and nt: "tg \<notin> tag_at (heap st) ` set (A k)"
  shows "\<exists>st'. capacity_miss ev g k is_load tg st = Inr st' \<and>
           cache_inv st' (A(k := tl (A k) @ [Suc (allocs st)])) \<and>
           length (sets st') = length (sets st) \<and> allocs st' = Suc (allocs st) \<and>
           heap st' (Suc (allocs st)) = Some (new_line_val is_load tg) \<and>
           heap st' (hd (A k)) = None \<and>
           (\<forall>a. a \<noteq> Suc (allocs st) \<longrightarrow> a \<noteq> hd (A k) \<longrightarrow>
                rel_option kept (heap st a) (heap st' a)) \<and>
           stats st' = evict_stats g is_load (dirty_at (heap st) (hd (A k))) (stats st)"
proof -
  let ?new = "Suc (allocs st)"
  let ?h = "heap st"
  let ?c = "sets st ! k"
  let ?f = "hd (A k)"
  note S = cache_inv_set [OF I k]
  have fresh: "?h ?new = None" by (rule cache_inv_fresh [OF I])
  then have new_notin: "?new \<notin> set (A k)" using S(3) by auto
  have lc: "line_count ?c = int (length (A k))" using S(1) by (simp add: set_ok_def)
  have nv: "line_ok (new_line_val is_load tg)"
    by (simp add: line_ok_def new_line_val_def)
  from set_ok_first [OF S(1) ne] obtain fl where
    fl: "first_line ?c = ?f" "?h ?f = Some fl" "seg ?h (nxt fl) (tl (A k)) 0"
    by blast
  have f_in: "?f \<in> set (A k)" using ne by simp
  then have f_rng: "0 < ?f" "?f \<le> allocs st" using S(4) by auto
  have d: "dirty_at ?h ?f = dirty_bit fl" using fl(2) by (simp add: dirty_at_def)
  have tl_sub: "set (tl (A k)) \<subseteq> set (A k)"
    using ne by (cases "A k") auto
  have f_notin: "?f \<notin> set (tl (A k))"
    using S(2) ne by (cases "A k") auto
  show ?thesis
  proof (cases "tl (A k) = []")
    case True
    then have Ak: "A k = [?f]" using ne by (cases "A k") auto
    define st' where "st' = st\<lparr>allocs := ?new,
        sets := (sets st)[k := ?c\<lparr>first_line := ?new, last_line := ?new\<rparr>],
        heap := ?h(?new \<mapsto> new_line_val is_load tg, first_line ?c := None),
        stats := evict_stats g is_load (dirty_bit fl) (stats st)\<rparr>"
    have len1: "length (A k) = 1" by (subst Ak) simp
    have setAk: "set (A k) = {?f}" by (subst Ak) simp
    have "line_count ?c = 1" using lc len1 by simp
    then have res: "capacity_miss ev g k is_load tg st = Inr st'"
      unfolding st'_def using k ok fl f_rng
      by (intro capacity_miss_single) simp_all
    have "cache_inv st' (A(k := [?new]))"
    proof (rule cache_inv_update [OF I k])
      show "sets st' = (sets st)[k := ?c\<lparr>first_line := ?new, last_line := ?new\<rparr>]"
        by (simp add: st'_def)
      show "set_ok (heap st') (?c\<lparr>first_line := ?new, last_line := ?new\<rparr>) [?new]"
        using lc len1 f_rng fl(1) by (simp add: set_ok_def st'_def new_line_val_def)
      show "dom (heap st') = dom ?h - set (A k) \<union> set [?new]"
        using setAk fl(1) f_rng by (auto simp: st'_def)
      show "\<forall>a. a \<notin> set (A k) \<longrightarrow> a \<notin> set [?new] \<longrightarrow> heap st' a = ?h a"
        using setAk fl(1) by (auto simp: st'_def)
    qed (use fresh nv f_rng fl(1) in \<open>auto simp: st'_def\<close>)
    moreover have "\<forall>a. a \<noteq> ?new \<longrightarrow> a \<noteq> ?f \<longrightarrow> rel_option kept (?h a) (heap st' a)"
      using fl(1) by (auto simp: st'_def rel_kept_same)
    ultimately show ?thesis using res True d f_rng fl(1)
      by (auto simp: st'_def)
  next
    case False
    have tl_ok: "seg ?h (nxt fl) (tl (A k)) 0" by (rule fl(3))
    have last_eq: "last_line ?c = last (tl (A k))"
      using S(1) ne False by (simp add: set_ok_def last_tl)
    from False obtain bs where bs: "tl (A k) = bs @ [last_line ?c]"
      using last_eq by (metis append_butlast_last_id)
    let ?lst = "last_line ?c"
    from tl_ok obtain ll where ll: "seg ?h (nxt fl) bs ?lst" "?h ?lst = Some ll" "nxt ll = 0"
      unfolding bs seg_snoc by blast
    have Ak: "A k = ?f # bs @ [?lst]"
      using ne bs by (cases "A k") auto
    have lst_in: "?lst \<in> set (A k)" by (subst Ak) simp
    then have lst_rng: "0 < ?lst" "?lst \<le> allocs st" using S(4) by auto
    have lst_ne: "?lst \<noteq> ?f" using S(2) by (subst (asm) Ak) auto
    have lst_notin: "?lst \<notin> set bs" using S(2) by (subst (asm) Ak) auto
    have f_notin_bs: "?f \<notin> set bs" using S(2) by (subst (asm) Ak) auto
    have new_notin_bs: "?new \<notin> set bs" using new_notin by (subst (asm) Ak) auto
    define st' where "st' = st\<lparr>allocs := ?new,
        sets := (sets st)[k := ?c\<lparr>first_line := nxt fl, last_line := ?new\<rparr>],
        heap := ?h(?lst \<mapsto> ll\<lparr>nxt := ?new\<rparr>, ?new \<mapsto> new_line_val is_load tg,
                  first_line ?c := None),
        stats := evict_stats g is_load (dirty_bit fl) (stats st)\<rparr>"
    have "line_count ?c \<noteq> 1" using lc by (subst (asm) Ak) simp
    then have res: "capacity_miss ev g k is_load tg st = Inr st'"
      unfolding st'_def using k ok fl f_rng ll(2) lst_rng lst_ne
      by (intro capacity_miss_several) simp_all
    have tags: "tag_at (heap st') a = tag_at ?h a" if "a \<in> set (tl (A k))" for a
    proof -
      have "a \<noteq> ?f" "a \<noteq> ?new" using that f_notin new_notin tl_sub by auto
      then show ?thesis using ll(2) fl(1) by (auto simp: st'_def tag_at_def)
    qed
    have "cache_inv st' (A(k := tl (A k) @ [?new]))"
    proof (rule cache_inv_update [OF I k])
      show "sets st' = (sets st)[k := ?c\<lparr>first_line := nxt fl, last_line := ?new\<rparr>]"
        by (simp add: st'_def)
      have "seg (heap st') (nxt fl) bs ?lst = seg ?h (nxt fl) bs ?lst"
        using lst_notin new_notin_bs f_notin_bs fl(1) by (intro seg_cong) (auto simp: st'_def)
      then have s1: "seg (heap st') (nxt fl) bs ?lst"
        using ll(1) by simp
      have h1: "heap st' ?lst = Some (ll\<lparr>nxt := ?new\<rparr>)"
        using lst_rng lst_ne fl(1) by (simp add: st'_def)
      have s2: "seg (heap st') (nxt fl) (tl (A k)) ?new"
        unfolding bs by (rule seg_snocI [OF s1 h1]) simp
      have h2: "heap st' ?new = Some (new_line_val is_load tg)"
        using f_rng fl(1) by (simp add: st'_def)
      have "seg (heap st') (nxt fl) (tl (A k) @ [?new]) 0"
        by (rule seg_snocI [OF s2 h2]) (simp add: new_line_val_def)
      moreover have "distinct (tl (map (tag_at ?h) (A k)))"
        using S(1) by (intro distinct_tl) (simp add: set_ok_def)
      then have "distinct (map (tag_at ?h) (tl (A k)))"
        by (simp only: map_tl)
      then have "distinct (map (tag_at (heap st')) (tl (A k)))"
        using tags by (simp add: distinct_map_cong [of "tl (A k)" "tag_at (heap st')" "tag_at ?h"])
      moreover have "tag_at (heap st') ` set (tl (A k)) = tag_at ?h ` set (tl (A k))"
        using tags by (intro image_cong) simp_all
      moreover have "tag_at ?h ` set (tl (A k)) \<subseteq> tag_at ?h ` set (A k)"
        using tl_sub by (intro image_mono)
      moreover have "tag_at (heap st') ?new = tg"
        using f_rng fl(1) by (simp add: st'_def tag_at_def new_line_val_def)
      moreover have "int (length (tl (A k) @ [?new])) = line_count ?c"
        using lc ne by simp
      ultimately show "set_ok (heap st') (?c\<lparr>first_line := nxt fl, last_line := ?new\<rparr>)
          (tl (A k) @ [?new])"
        using nt by (auto simp add: set_ok_def)
      show "distinct (tl (A k) @ [?new])"
        using S(2) new_notin tl_sub by (auto simp: distinct_tl)
      show "\<forall>a. a \<notin> set (A k) \<longrightarrow> a \<notin> set (tl (A k) @ [?new]) \<longrightarrow> heap st' a = ?h a"
        using lst_in f_in fl(1) by (auto simp: st'_def)
      show "set (tl (A k) @ [?new]) \<subseteq> set (A k) \<union> {a. ?h a = None}"
        using fresh tl_sub by auto
      show "dom (heap st') = dom ?h - set (A k) \<union> set (tl (A k) @ [?new])"
      proof -
        have "set (A k) = insert ?f (set (tl (A k)))" using ne by (cases "A k") auto
        moreover have "set (tl (A k)) \<subseteq> dom ?h" using S(3) tl_sub by auto
        moreover have "dom (heap st') = insert ?new (dom ?h) - {?f}"
          using fl(1) f_rng lst_ne ll(2) by (auto simp: st'_def)
        ultimately show ?thesis using f_notin f_rng by auto
      qed
      have "\<forall>a\<in>set (tl (A k)). 0 < a \<and> a \<le> allocs st"
        using S(4) tl_sub by blast
      then show "\<forall>a\<in>set (tl (A k) @ [?new]). 0 < a \<and> a \<le> allocs st'"
        by (auto simp: st'_def)
      show "allocs st \<le> allocs st'" by (simp add: st'_def)
      show "\<forall>a\<in>set (tl (A k) @ [?new]). \<forall>l. heap st' a = Some l \<longrightarrow> line_ok l"
        using I nv ll(2) by (auto simp: st'_def cache_inv_def line_ok_def split: if_splits)
    qed
    moreover have "\<forall>a. a \<noteq> ?new \<longrightarrow> a \<noteq> ?f \<longrightarrow> rel_option kept (?h a) (heap st' a)"
      using ll(2) fl(1) by (auto simp: st'_def kept_def rel_kept_same)
    ultimately show ?thesis using res d f_rng fl(1) lst_rng
      by (auto simp: st'_def)
  qed
qed

lemma hit_reorder_last:
  "type = line_count (sets st ! k) - 1 \<Longrightarrow> hit_reorder k type st = Inr (last_line (sets st ! k), st)"
  by (simp add: hit_reorder_def)

lemma hit_reorder_first:
  assumes "k < length (sets st)" "0 \<noteq> line_count (sets st ! k) - 1"
    "heap st (first_line (sets st ! k)) = Some cl" "heap st (last_line (sets st ! k)) = Some ll"
    "last_line (sets st ! k) \<noteq> first_line (sets st ! k)"
  shows "hit_reorder k 0 st =
           Inr (first_line (sets st ! k),
                st\<lparr>sets := (sets st)[k := (sets st ! k)\<lparr>first_line := nxt cl,
                          last_line := first_line (sets st ! k)\<rparr>],
                   heap := (heap st)(last_line (sets st ! k) \<mapsto> ll\<lparr>nxt := first_line (sets st ! k)\<rparr>,
                          first_line (sets st ! k) \<mapsto> cl\<lparr>nxt := 0\<rparr>)\<rparr>)"
  using assms by (auto simp add: hit_reorder_def blk_defs)

lemma hit_reorder_middle:
  assumes "k < length (sets st)" "type \<noteq> line_count (sets st ! k) - 1" "type \<noteq> 0"
    "get_line (heap st) (sets st ! k) (type - 1) = Inr prev"
    "heap st prev = Some pl" "heap st (nxt pl) = Some cl" "heap st (last_line (sets st ! k)) = Some ll"
    "last_line (sets st ! k) \<noteq> prev" "last_line (sets st ! k) \<noteq> nxt pl" "nxt pl \<noteq> prev"
  shows "hit_reorder k type st =
           Inr (nxt pl,
                st\<lparr>sets := (sets st)[k := (sets st ! k)\<lparr>last_line := nxt pl\<rparr>],
                   heap := (heap st)(prev \<mapsto> pl\<lparr>nxt := nxt cl\<rparr>,
                          last_line (sets st ! k) \<mapsto> ll\<lparr>nxt := nxt pl\<rparr>,
                          nxt pl \<mapsto> cl\<lparr>nxt := 0\<rparr>)\<rparr>)"
  using assms by (auto simp add: hit_reorder_def blk_defs)

lemma hit_after_reorder:
  assumes "hit_reorder k type st = Inr (cur, st1)" "heap st1 cur = Some cl"
  shows "hit g k type is_load st =
           Inr (st1\<lparr>stats := hit_stats g is_load (dirty_bit cl) (stats st1),
                    heap := (heap st1)(cur \<mapsto> touch is_load cl)\<rparr>)"
  using assms by (auto simp add: hit_def blk_defs hit_stats_def touch_def map_upd_triv)

lemma seg_appendI: "seg h p as r \<Longrightarrow> seg h r bs q \<Longrightarrow> seg h p (as @ bs) q"
  by (auto simp: seg_append)

lemma seg_split_at:
  assumes "seg h p as 0" "j < length as"
  obtains cl where "seg h p (take j as) (as ! j)" "h (as ! j) = Some cl"
    "seg h (nxt cl) (drop (Suc j) as) 0"
proof -
  have "as = take j as @ (as ! j) # drop (Suc j) as"
    using assms(2) by (rule id_take_nth_drop)
  with assms(1) have "seg h p (take j as @ (as ! j) # drop (Suc j) as) 0" by simp
  then obtain r where "seg h p (take j as) r" "seg h r ((as ! j) # drop (Suc j) as) 0"
    unfolding seg_append by blast
  then show ?thesis using that by (auto split: option.splits)
qed

lemma moved_last: "j = length as - 1 \<Longrightarrow> as \<noteq> [] \<Longrightarrow> moved j as = as"
proof -
  assume j: "j = length as - 1" and ne: "as \<noteq> []"
  then have "j < length as" by simp
  then have "take (Suc j) as = take j as @ [as ! j]" by (rule take_Suc_conv_app_nth)
  moreover have "Suc j = length as" using j ne by simp
  ultimately show ?thesis by (simp add: moved_def)
qed

lemma set_moved: "j < length as \<Longrightarrow> set (moved j as) = set as"
proof -
  assume j: "j < length as"
  have "set as = set (take j as @ (as ! j) # drop (Suc j) as)"
    using id_take_nth_drop [OF j] by simp
  then show ?thesis by (auto simp: moved_def)
qed

lemma distinct_map_moved:
  "j < length as \<Longrightarrow> distinct (map f as) \<Longrightarrow> distinct (map f (moved j as))"
proof -
  assume j: "j < length as" and d: "distinct (map f as)"
  have "distinct (map f (take j as @ (as ! j) # drop (Suc j) as))"
    using id_take_nth_drop [OF j] d by simp
  then show ?thesis by (auto simp: moved_def)
qed

lemma distinct_moved: "j < length as \<Longrightarrow> distinct as \<Longrightarrow> distinct (moved j as)"
  using distinct_map_moved [of j as id] by simp

lemma length_moved: "j < length as \<Longrightarrow> length (moved j as) = length as"
  by (simp add: moved_def)

lemma hit_reorder_inv:
  assumes I: "cache_inv st A" and k: "k < length (sets st)" and j: "j < length (A k)"
  shows "\<exists>st1. hit_reorder k (int j) st = Inr (A k ! j, st1) \<and>
           cache_inv st1 (A(k := moved j (A k))) \<and>
           length (sets st1) = length (sets st) \<and> allocs st1 = allocs st \<and> stats st1 = stats st \<and>
           (\<forall>a. rel_option kept (heap st a) (heap st1 a))"
proof -
  let ?h = "heap st"
  let ?c = "sets st ! k"
  let ?as = "A k"
  let ?cur = "A k ! j"
  let ?lst = "last_line ?c"
  note S = cache_inv_set [OF I k]
  have ne: "?as \<noteq> []" using j by auto
  have lc: "line_count ?c = int (length ?as)" using S(1) by (simp add: set_ok_def)
  have sg: "seg ?h (first_line ?c) ?as 0" using S(1) by (simp add: set_ok_def)
  have lst: "?lst = last ?as" using S(1) ne by (simp add: set_ok_def)
  have tg: "distinct (map (tag_at ?h) ?as)" using S(1) by (simp add: set_ok_def)
  have keep_refl: "\<forall>a. rel_option kept (?h a) (?h a)"
    by (simp add: rel_kept_same)
  show ?thesis
  proof (cases "j = length ?as - 1")
    case True
    then have "int j = line_count ?c - 1" using lc ne by (simp add: of_nat_diff Suc_leI)
    then have "hit_reorder k (int j) st = Inr (?lst, st)" by (rule hit_reorder_last)
    moreover have "?lst = ?cur" using lst True ne by (simp add: last_conv_nth)
    moreover have "moved j ?as = ?as" using True ne by (rule moved_last)
    then have "A(k := moved j ?as) = A" by simp
    ultimately show ?thesis using I keep_refl by auto
  next
    case False
    then have jlt: "Suc j < length ?as" using j by simp
    have jne: "int j \<noteq> line_count ?c - 1" using lc False ne by auto
    from seg_split_at [OF sg j] obtain cl where
      cl: "seg ?h (first_line ?c) (take j ?as) ?cur" "?h ?cur = Some cl"
        "seg ?h (nxt cl) (drop (Suc j) ?as) 0"
      by blast
    let ?ys = "drop (Suc j) ?as"
    have ys_ne: "?ys \<noteq> []" using jlt by simp
    have ys_last: "last ?ys = ?lst" using lst jlt by simp
    define ys' where "ys' = butlast ?ys"
    have ys: "?ys = ys' @ [?lst]"
      using ys_ne ys_last unfolding ys'_def by (metis append_butlast_last_id)
    from cl(3) obtain ll where ll: "seg ?h (nxt cl) ys' ?lst" "?h ?lst = Some ll" "nxt ll = 0"
      unfolding ys seg_snoc by blast
    have decomp: "?as = take j ?as @ ?cur # ys' @ [?lst]"
      using id_take_nth_drop [OF j] ys by simp
    have dist: "distinct (take j ?as @ ?cur # ys' @ [?lst])"
      using S(2) decomp by simp
    have lst_ne_cur: "?lst \<noteq> ?cur" using dist by auto
    have mv: "moved j ?as = take j ?as @ ys' @ [?lst] @ [?cur]"
      by (simp add: moved_def ys)
    have set_mv: "set (moved j ?as) = set ?as" by (rule set_moved [OF j])
    show ?thesis
    proof (cases "j = 0")
      case True
      have first: "first_line ?c = ?cur" using cl(1) True by simp
      define st1 where "st1 = st\<lparr>sets := (sets st)[k := ?c\<lparr>first_line := nxt cl, last_line := ?cur\<rparr>],
          heap := ?h(?lst \<mapsto> ll\<lparr>nxt := ?cur\<rparr>, ?cur \<mapsto> cl\<lparr>nxt := 0\<rparr>)\<rparr>"
      have "0 \<noteq> line_count ?c - 1" using jne True by simp
      then have "hit_reorder k 0 st = Inr (first_line ?c, st\<lparr>sets := (sets st)[k := ?c\<lparr>first_line := nxt cl,
                          last_line := first_line ?c\<rparr>],
                   heap := ?h(?lst \<mapsto> ll\<lparr>nxt := first_line ?c\<rparr>, first_line ?c \<mapsto> cl\<lparr>nxt := 0\<rparr>)\<rparr>)"
        using k cl(2) ll(2) lst_ne_cur first by (intro hit_reorder_first) simp_all
      then have res: "hit_reorder k (int j) st = Inr (?cur, st1)"
        using True first by (simp add: st1_def)
      have heq: "heap st1 a = ?h a" if "a \<noteq> ?lst" "a \<noteq> ?cur" for a
        using that by (simp add: st1_def)
      have tags: "tag_at (heap st1) a = tag_at ?h a" for a
        using cl(2) ll(2) by (simp add: st1_def tag_at_def)
      have "cache_inv st1 (A(k := moved j ?as))"
      proof (rule cache_inv_update [OF I k])
        show "sets st1 = (sets st)[k := ?c\<lparr>first_line := nxt cl, last_line := ?cur\<rparr>]"
          by (simp add: st1_def)
        have "\<forall>a\<in>set ys'. heap st1 a = ?h a"
        proof
          fix a assume "a \<in> set ys'"
          then have "a \<noteq> ?lst" "a \<noteq> ?cur" using dist by auto
          then show "heap st1 a = ?h a" by (rule heq)
        qed
        then have "seg (heap st1) (nxt cl) ys' ?lst = seg ?h (nxt cl) ys' ?lst"
          by (rule seg_cong)
        then have s1: "seg (heap st1) (nxt cl) ys' ?lst" using ll(1) by simp
        have h1: "heap st1 ?lst = Some (ll\<lparr>nxt := ?cur\<rparr>)"
          using lst_ne_cur by (simp add: st1_def)
        have s2: "seg (heap st1) (nxt cl) (ys' @ [?lst]) ?cur"
          by (rule seg_snocI [OF s1 h1]) simp
        have h2: "heap st1 ?cur = Some (cl\<lparr>nxt := 0\<rparr>)"
          by (simp add: st1_def)
        have tk0: "take j ?as = []" using True by simp
        have mv0: "moved j ?as = (ys' @ [?lst]) @ [?cur]"
          by (simp add: mv tk0)
        have "seg (heap st1) (nxt cl) ((ys' @ [?lst]) @ [?cur]) 0"
          by (rule seg_snocI [OF s2 h2]) simp
        then have "seg (heap st1) (nxt cl) (moved j ?as) 0"
          by (simp only: mv0)
        moreover have "distinct (map (tag_at (heap st1)) (moved j ?as))"
          using distinct_map_moved [OF j tg] tags
          by (simp add: distinct_map_cong [of "moved j ?as" "tag_at (heap st1)" "tag_at ?h"])
        moreover have "last (moved j ?as) = ?cur" by (simp add: moved_def)
        moreover have "moved j ?as \<noteq> []" by (simp add: moved_def)
        ultimately show "set_ok (heap st1) (?c\<lparr>first_line := nxt cl, last_line := ?cur\<rparr>) (moved j ?as)"
          using lc length_moved [OF j] by (simp add: set_ok_def)
        show "distinct (moved j ?as)" using S(2) j by (rule distinct_moved [rotated])
        show "\<forall>a. a \<notin> set ?as \<longrightarrow> a \<notin> set (moved j ?as) \<longrightarrow> heap st1 a = ?h a"
          using decomp heq by (metis in_set_conv_decomp append_Cons append_assoc)
        show "set (moved j ?as) \<subseteq> set ?as \<union> {a. ?h a = None}" using set_mv by simp
        show "dom (heap st1) = dom ?h - set ?as \<union> set (moved j ?as)"
          using S(3) set_mv cl(2) ll(2) by (auto simp: st1_def)
        show "\<forall>a\<in>set (moved j ?as). 0 < a \<and> a \<le> allocs st1"
          using S(4) set_mv by (simp add: st1_def)
        show "allocs st \<le> allocs st1" by (simp add: st1_def)
        show "\<forall>a\<in>set (moved j ?as). \<forall>l. heap st1 a = Some l \<longrightarrow> line_ok l"
          using I cl(2) ll(2) by (auto simp: st1_def cache_inv_def line_ok_def split: if_splits)
      qed
      moreover have "\<forall>a. rel_option kept (?h a) (heap st1 a)"
        using cl(2) ll(2) by (auto simp: st1_def kept_def rel_kept_same)
      ultimately show ?thesis using res by (auto simp: st1_def)
    next
      case False
      then have jpos: "0 < j" by simp
      let ?xs = "take j ?as"
      have xs_ne: "?xs \<noteq> []" using jpos j ne by simp
      let ?prev = "?as ! (j - 1)"
      have xs_last: "last ?xs = ?prev"
        using jpos j ne by (simp add: last_conv_nth)
      define xs' where "xs' = butlast ?xs"
      have xs: "?xs = xs' @ [?prev]"
        using xs_ne xs_last unfolding xs'_def by (metis append_butlast_last_id)
      from cl(1) obtain pl where pl: "seg ?h (first_line ?c) xs' ?prev" "?h ?prev = Some pl" "nxt pl = ?cur"
        unfolding xs seg_snoc by blast
      have decomp2: "?as = xs' @ [?prev] @ ?cur # ys' @ [?lst]"
        using decomp xs by simp
      have dist2: "distinct (xs' @ [?prev] @ ?cur # ys' @ [?lst])"
        using S(2) decomp2 by simp
      have ne3: "?lst \<noteq> ?prev" "?cur \<noteq> ?prev" using dist2 by auto
      have gl: "get_line ?h ?c (int j - 1) = Inr ?prev"
      proof -
        have a: "get_line_loop ?h (int j - 1) (first_line ?c) 0 = Inr ((?as @ [0]) ! nat (int j - 1 - 0))"
          using jpos j by (intro get_line_loop_seg [OF sg]) auto
        have b: "(?as @ [0]) ! nat (int j - 1 - 0) = ?prev"
        proof -
          have "nat (int j - 1 - 0) = j - 1" by simp
          moreover have "j - 1 < length ?as" using j by simp
          ultimately show ?thesis by (simp add: nth_append)
        qed
        show ?thesis unfolding get_line_def a b ..
      qed
      define st1 where "st1 = st\<lparr>sets := (sets st)[k := ?c\<lparr>last_line := ?cur\<rparr>],
          heap := ?h(?prev \<mapsto> pl\<lparr>nxt := nxt cl\<rparr>, ?lst \<mapsto> ll\<lparr>nxt := ?cur\<rparr>,
                    ?cur \<mapsto> cl\<lparr>nxt := 0\<rparr>)\<rparr>"
      have "hit_reorder k (int j) st = Inr (nxt pl, st\<lparr>sets := (sets st)[k := ?c\<lparr>last_line := nxt pl\<rparr>],
                   heap := ?h(?prev \<mapsto> pl\<lparr>nxt := nxt cl\<rparr>, ?lst \<mapsto> ll\<lparr>nxt := nxt pl\<rparr>,
                          nxt pl \<mapsto> cl\<lparr>nxt := 0\<rparr>)\<rparr>)"
        using k jne jpos gl pl(2) cl(2) ll(2) ne3 lst_ne_cur pl(3)
        by (intro hit_reorder_middle) simp_all
      then have res: "hit_reorder k (int j) st = Inr (?cur, st1)"
        using pl(3) by (simp add: st1_def)
      have heq: "heap st1 a = ?h a" if "a \<noteq> ?lst" "a \<noteq> ?cur" "a \<noteq> ?prev" for a
        using that by (simp add: st1_def)
      have tags: "tag_at (heap st1) a = tag_at ?h a" for a
        using cl(2) ll(2) pl(2) by (simp add: st1_def tag_at_def)
      have "cache_inv st1 (A(k := moved j ?as))"
      proof (rule cache_inv_update [OF I k])
        show "sets st1 = (sets st)[k := ?c\<lparr>last_line := ?cur\<rparr>]"
          by (simp add: st1_def)
        have "\<forall>a\<in>set xs'. heap st1 a = ?h a"
        proof
          fix a assume "a \<in> set xs'"
          then have "a \<noteq> ?lst" "a \<noteq> ?cur" "a \<noteq> ?prev" using dist2 by auto
          then show "heap st1 a = ?h a" by (rule heq)
        qed
        then have "seg (heap st1) (first_line ?c) xs' ?prev = seg ?h (first_line ?c) xs' ?prev"
          by (rule seg_cong)
        then have s0: "seg (heap st1) (first_line ?c) xs' ?prev" using pl(1) by simp
        have h0: "heap st1 ?prev = Some (pl\<lparr>nxt := nxt cl\<rparr>)"
          using ne3 by (simp add: st1_def)
        have s0': "seg (heap st1) (first_line ?c) (xs' @ [?prev]) (nxt cl)"
          by (rule seg_snocI [OF s0 h0]) simp
        have "\<forall>a\<in>set ys'. heap st1 a = ?h a"
        proof
          fix a assume "a \<in> set ys'"
          then have "a \<noteq> ?lst" "a \<noteq> ?cur" "a \<noteq> ?prev" using dist2 by auto
          then show "heap st1 a = ?h a" by (rule heq)
        qed
        then have "seg (heap st1) (nxt cl) ys' ?lst = seg ?h (nxt cl) ys' ?lst"
          by (rule seg_cong)
        then have s1: "seg (heap st1) (nxt cl) ys' ?lst" using ll(1) by simp
        have h1: "heap st1 ?lst = Some (ll\<lparr>nxt := ?cur\<rparr>)"
          using lst_ne_cur by (simp add: st1_def)
        have s2: "seg (heap st1) (nxt cl) (ys' @ [?lst]) ?cur"
          by (rule seg_snocI [OF s1 h1]) simp
        have h2: "heap st1 ?cur = Some (cl\<lparr>nxt := 0\<rparr>)"
          by (simp add: st1_def)
        have s3: "seg (heap st1) (nxt cl) ((ys' @ [?lst]) @ [?cur]) 0"
          by (rule seg_snocI [OF s2 h2]) simp
        have mv1: "moved j ?as = (xs' @ [?prev]) @ ((ys' @ [?lst]) @ [?cur])"
          by (simp add: mv xs)
        have "seg (heap st1) (first_line ?c) ((xs' @ [?prev]) @ ((ys' @ [?lst]) @ [?cur])) 0"
          by (rule seg_appendI [OF s0' s3])
        then have "seg (heap st1) (first_line ?c) (moved j ?as) 0"
          by (simp only: mv1)
        moreover have "distinct (map (tag_at (heap st1)) (moved j ?as))"
          using distinct_map_moved [OF j tg] tags
          by (simp add: distinct_map_cong [of "moved j ?as" "tag_at (heap st1)" "tag_at ?h"])
        moreover have "last (moved j ?as) = ?cur" by (simp add: moved_def)
        moreover have "moved j ?as \<noteq> []" by (simp add: moved_def)
        ultimately show "set_ok (heap st1) (?c\<lparr>last_line := ?cur\<rparr>) (moved j ?as)"
          using lc length_moved [OF j] by (simp add: set_ok_def)
        show "distinct (moved j ?as)" using S(2) j by (rule distinct_moved [rotated])
        have "?lst \<in> set ?as" "?cur \<in> set ?as" "?prev \<in> set ?as"
          using j jpos lst ne by auto
        then show "\<forall>a. a \<notin> set ?as \<longrightarrow> a \<notin> set (moved j ?as) \<longrightarrow> heap st1 a = ?h a"
          using heq by metis
        show "set (moved j ?as) \<subseteq> set ?as \<union> {a. ?h a = None}" using set_mv by simp
        show "dom (heap st1) = dom ?h - set ?as \<union> set (moved j ?as)"
          using S(3) set_mv cl(2) ll(2) pl(2) by (auto simp: st1_def)
        show "\<forall>a\<in>set (moved j ?as). 0 < a \<and> a \<le> allocs st1"
          using S(4) set_mv by (simp add: st1_def)
        show "allocs st \<le> allocs st1" by (simp add: st1_def)
        show "\<forall>a\<in>set (moved j ?as). \<forall>l. heap st1 a = Some l \<longrightarrow> line_ok l"
          using I cl(2) ll(2) pl(2) by (auto simp: st1_def cache_inv_def line_ok_def split: if_splits)
      qed
      moreover have "\<forall>a. rel_option kept (?h a) (heap st1 a)"
        using cl(2) ll(2) pl(2) by (auto simp: st1_def kept_def rel_kept_same)
      ultimately show ?thesis using res by (auto simp: st1_def)
    qed
  qed
qed

lemma cache_inv_touch:
  assumes I: "cache_inv st A" and h: "heap st a = Some l"
    and l': "nxt l' = nxt l" "tag l' = tag l" "line_ok l'"
  shows "cache_inv (st\<lparr>stats := s', heap := (heap st)(a \<mapsto> l')\<rparr>) A"
proof -
  let ?h = "heap st"
  let ?h' = "?h(a \<mapsto> l')"
  have tags: "tag_at ?h' b = tag_at ?h b" for b
    using h l'(2) by (simp add: tag_at_def)
  have ok: "set_ok ?h' c as" if "set_ok ?h c as" for c as
  proof -
    have "distinct (map (tag_at ?h') as) = distinct (map (tag_at ?h) as)"
      by (rule distinct_map_cong) (rule tags)
    with that show ?thesis
      by (simp add: set_ok_def seg_upd_same_nxt [of ?h a l l', OF h l'(1)])
  qed
  have "dom ?h' = dom ?h" using h by auto
  with I ok l'(3) show ?thesis
    by (auto simp: cache_inv_def)
qed

lemma hit_inv:
  assumes I: "cache_inv st A" and k: "k < length (sets st)" and j: "j < length (A k)"
  shows "\<exists>st'. hit g k (int j) is_load st = Inr st' \<and>
           cache_inv st' (A(k := moved j (A k))) \<and>
           length (sets st') = length (sets st) \<and> allocs st' = allocs st \<and>
           stats st' = hit_stats g is_load (dirty_at (heap st) (A k ! j)) (stats st) \<and>
           (\<forall>a. a \<noteq> A k ! j \<longrightarrow> rel_option kept (heap st a) (heap st' a)) \<and>
           tag_at (heap st') (A k ! j) = tag_at (heap st) (A k ! j) \<and>
           dirty_at (heap st') (A k ! j) = (if is_load = 0 then 1 else dirty_at (heap st) (A k ! j))"
proof -
  let ?cur = "A k ! j"
  from hit_reorder_inv [OF I k j] obtain st1 where
    st1: "hit_reorder k (int j) st = Inr (?cur, st1)" "cache_inv st1 (A(k := moved j (A k)))"
      "length (sets st1) = length (sets st)" "allocs st1 = allocs st" "stats st1 = stats st"
      "\<forall>a. rel_option kept (heap st a) (heap st1 a)"
    by blast
  have "?cur \<in> set (A k)" using j by simp
  then have "?cur \<in> dom (heap st)" using cache_inv_set(3) [OF I k] by blast
  then obtain cl where cl: "heap st ?cur = Some cl" by auto
  with st1(6) obtain cl1 where cl1: "heap st1 ?cur = Some cl1" "kept cl cl1"
    by (metis option.rel_cases option.distinct(1) option.inject)
  have ok: "line_ok cl1" using st1(2) cl1(1) by (simp add: cache_inv_def)
  define st' where "st' = st1\<lparr>stats := hit_stats g is_load (dirty_bit cl1) (stats st1),
      heap := (heap st1)(?cur \<mapsto> touch is_load cl1)\<rparr>"
  have res: "hit g k (int j) is_load st = Inr st'"
    unfolding st'_def by (rule hit_after_reorder [OF st1(1) cl1(1)])
  have "cache_inv st' (A(k := moved j (A k)))"
    unfolding st'_def using ok
    by (intro cache_inv_touch [OF st1(2) cl1(1)]) (auto simp: touch_def line_ok_def)
  moreover have "dirty_at (heap st) ?cur = dirty_bit cl1"
    using cl cl1(2) by (simp add: dirty_at_def kept_def)
  moreover have "dirty_at (heap st') ?cur = (if is_load = 0 then 1 else dirty_bit cl1)"
    using ok by (auto simp: st'_def dirty_at_def touch_def line_ok_def)
  moreover have "tag_at (heap st') ?cur = tag_at (heap st) ?cur"
    using cl cl1(2) by (auto simp: st'_def tag_at_def touch_def kept_def)
  ultimately show ?thesis
    using res st1(3,4,5,6) by (auto simp: st'_def)
qed

lemma walk_seg:
  "seg h p as q \<Longrightarrow>
   \<exists>ls. walk h p (length as) = Some (ls, q) \<and>
        map (\<lambda>(a, l). (a, tag l, dirty_bit l)) ls = view h as"
proof (induction as arbitrary: p)
  case Nil
  then show ?case by (simp add: view_def)
next
  case (Cons a as)
  then obtain l where l: "p = a" "h a = Some l" "seg h (nxt l) as q"
    by (auto split: option.splits)
  from Cons.IH [OF l(3)] obtain ls where
    ls: "walk h (nxt l) (length as) = Some (ls, q)"
      "map (\<lambda>(a, l). (a, tag l, dirty_bit l)) ls = view h as"
    by blast
  have "walk h p (length (a # as)) = Some ((a, l) # ls, q)"
    using l ls(1) by simp
  moreover have "map (\<lambda>(a, l). (a, tag l, dirty_bit l)) ((a, l) # ls) = view h (a # as)"
    using ls(2) l(2) by (simp add: view_def tag_at_def dirty_at_def)
  ultimately show ?case by blast
qed

lemma lru_order_inv:
  assumes "cache_inv st A" "k < length (sets st)"
  shows "lru_order st k = Some (view (heap st) (A k))"
proof -
  let ?c = "sets st ! k"
  have ok: "set_ok (heap st) ?c (A k)" by (rule cache_inv_set(1) [OF assms])
  then have lc: "line_count ?c = int (length (A k))" and sg: "seg (heap st) (first_line ?c) (A k) 0"
    by (simp_all add: set_ok_def)
  from walk_seg [OF sg] obtain ls where
    "walk (heap st) (first_line ?c) (length (A k)) = Some (ls, 0)"
    "map (\<lambda>(a, l). (a, tag l, dirty_bit l)) ls = view (heap st) (A k)"
    by blast
  then show ?thesis using lc assms(2) by (simp add: lru_order_def)
qed

lemma first_pos_None: "first_pos x xs = None \<longleftrightarrow> x \<notin> set xs"
  by (induction xs) auto

lemma first_pos_Some:
  "first_pos x xs = Some j \<Longrightarrow> j < length xs \<and> xs ! j = x \<and> x \<notin> set (take j xs)"
proof (induction xs arbitrary: j)
  case Nil
  then show ?case by simp
next
  case (Cons y ys)
  show ?case
  proof (cases "y = x")
    case True
    with Cons.prems show ?thesis by simp
  next
    case False
    with Cons.prems obtain i where i: "first_pos x ys = Some i" "j = Suc i" by auto
    from Cons.IH [OF i(1)] False i(2) show ?thesis by simp
  qed
qed

lemma miss_type_inv:
  assumes I: "cache_inv st A" and k: "k < length (sets st)"
  shows "miss_type g (heap st) (sets st ! k) sn tg =
           Inr (case first_pos tg (map (tag_at (heap st)) (A k)) of
                  Some j \<Rightarrow> int j
                | None \<Rightarrow> if A k \<noteq> [] \<and> int (length (A k)) = g_E g then - 2 else - 1)"
proof -
  let ?c = "sets st ! k"
  have ok: "set_ok (heap st) ?c (A k)" by (rule cache_inv_set(1) [OF assms])
  then have lc: "line_count ?c = int (length (A k))" and sg: "seg (heap st) (first_line ?c) (A k) 0"
    by (simp_all add: set_ok_def)
  show ?thesis
  proof (cases "A k = []")
    case True
    with lc show ?thesis by (simp add: miss_type_def)
  next
    case False
    have "miss_type_loop (heap st) tg (line_count ?c) (first_line ?c) 0 =
            Inr (map_option (\<lambda>j. 0 + int j) (first_pos tg (map (tag_at (heap st)) (A k))))"
      using lc by (intro miss_type_loop_seg [OF sg]) simp
    with False lc show ?thesis
      by (simp add: miss_type_def split: option.splits)
  qed
qed

lemma cold_miss_Inr:
  assumes I: "cache_inv st A" and k: "k < length (sets st)"
    and res: "cold_miss ev g k is_load tg st = Inr st'"
  shows "calloc_ok ev (allocs st)" "int (length (A k)) < INT_MAX"
proof -
  show ok: "calloc_ok ev (allocs st)"
    using res cold_miss_abort [of ev st g k is_load tg] by auto
  note S = cache_inv_set [OF I k]
  have lc: "line_count (sets st ! k) = int (length (A k))" using S(1) by (simp add: set_ok_def)
  show "int (length (A k)) < INT_MAX"
  proof (cases "A k = []")
    case True
    then show ?thesis by (simp add: INT_MAX_def)
  next
    case False
    from set_ok_last [OF S(1) False] obtain bs ll where
      bs: "A k = bs @ [last_line (sets st ! k)]" "heap st (last_line (sets st ! k)) = Some ll"
      by blast
    have "last_line (sets st ! k) \<in> set (A k)" by (subst bs(1)) simp
    then have "last_line (sets st ! k) \<le> allocs st" using S(4) by blast
    with cold_miss_nonempty [of k st ev ll g is_load tg] k lc False ok bs(2) res
    show ?thesis by (auto split: if_splits)
  qed
qed

lemma capacity_miss_Inr:
  assumes res: "capacity_miss ev g k is_load tg st = Inr st'"
  shows "calloc_ok ev (allocs st)"
  using res capacity_miss_abort [of ev st g k is_load tg] by auto

lemma kept_tag_dirty:
  "rel_option kept (h a) (h' a) \<Longrightarrow> tag_at h' a = tag_at h a \<and> dirty_at h' a = dirty_at h a"
  by (cases "h a"; cases "h' a") (simp_all add: tag_at_def dirty_at_def kept_def)

lemma view_kept:
  assumes "\<forall>a\<in>set as. rel_option kept (h a) (h' a)"
  shows "view h' as = view h as"
  unfolding view_def
  by (rule map_cong) (use assms kept_tag_dirty in auto)

lemma view_kept_except:
  assumes "\<forall>a. a \<notin> X \<longrightarrow> rel_option kept (h a) (h' a)" "set as \<inter> X = {}"
  shows "view h' as = view h as"
proof (rule view_kept, rule ballI)
  fix a assume "a \<in> set as"
  with assms(2) have "a \<notin> X" by auto
  with assms(1) show "rel_option kept (h a) (h' a)" by simp
qed

lemma view_append: "view h (as @ bs) = view h as @ view h bs"
  by (simp add: view_def)

lemma view_tl: "view h (tl as) = tl (view h as)"
  by (simp add: view_def map_tl)

lemma view_tags: "map (fst \<circ> snd) (view h as) = map (tag_at h) as"
  by (simp add: view_def comp_def)

lemma view_addrs: "map fst (view h as) = as"
  by (simp add: view_def comp_def)

lemma length_view: "length (view h as) = length as"
  by (simp add: view_def)

lemma cache_inv_disjoint:
  assumes "cache_inv st A" "j < length (sets st)" "k < length (sets st)" "j \<noteq> k"
  shows "set (A j) \<inter> set (A k) = {}"
  using assms by (simp add: cache_inv_def)

lemma loop_body_parse_fail:
  "parsing_line g r = Inl e \<Longrightarrow> loop_body ev g st r = Inl e"
  by (simp add: loop_body_def lookup_def)

lemma loop_body_bad_index:
  "parsing_line g r = Inr (is_load, tg, sn) \<Longrightarrow>
   \<not> (0 \<le> sint sn \<and> sint sn < int (length (sets st))) \<Longrightarrow>
   loop_body ev g st r = Inl Undefined"
  by (simp add: loop_body_def lookup_def)

lemma loop_body_cold:
  assumes "parsing_line g r = Inr (is_load, tg, sn)"
    "0 \<le> sint sn" "sint sn < int (length (sets st))"
    "miss_type g (heap st) (sets st ! nat (sint sn)) sn tg = Inr (- 1)"
  shows "loop_body ev g st r = cold_miss ev g (nat (sint sn)) is_load tg st"
  using assms
  by (cases "cold_miss ev g (nat (sint sn)) is_load tg st")
    (simp_all add: loop_body_def lookup_def Let_def COLD_MISS_TYPE_def CAPACITY_MISS_TYPE_def)

lemma loop_body_capacity:
  assumes "parsing_line g r = Inr (is_load, tg, sn)"
    "0 \<le> sint sn" "sint sn < int (length (sets st))"
    "miss_type g (heap st) (sets st ! nat (sint sn)) sn tg = Inr (- 2)"
  shows "loop_body ev g st r = capacity_miss ev g (nat (sint sn)) is_load tg st"
  using assms
  by (cases "capacity_miss ev g (nat (sint sn)) is_load tg st")
    (simp_all add: loop_body_def lookup_def Let_def COLD_MISS_TYPE_def CAPACITY_MISS_TYPE_def)

lemma loop_body_hit:
  assumes "parsing_line g r = Inr (is_load, tg, sn)"
    "0 \<le> sint sn" "sint sn < int (length (sets st))"
    "miss_type g (heap st) (sets st ! nat (sint sn)) sn tg = Inr ty" "0 \<le> ty"
  shows "loop_body ev g st r = hit g (nat (sint sn)) ty is_load st"
  using assms
  by (simp add: loop_body_def lookup_def Let_def COLD_MISS_TYPE_def CAPACITY_MISS_TYPE_def)

lemma loop_body_sim:
  assumes I: "cache_inv st A" and res: "loop_body ev g st r = Inr st'"
  obtains is_load tg sn k ty A' where
    "parsing_line g r = Inr (is_load, tg, sn)" "0 \<le> sint sn" "k = nat (sint sn)"
    "k < length (sets st)"
    "miss_type g (heap st) (sets st ! k) sn tg = Inr ty"
    "cache_inv st' A'" "length (sets st') = length (sets st)"
    "\<forall>j. j \<noteq> k \<longrightarrow> j < length (sets st) \<longrightarrow>
         A' j = A j \<and> view (heap st') (A j) = view (heap st) (A j)"
    "case first_pos tg (map (tag_at (heap st)) (A k)) of
       Some j \<Rightarrow>
         ty = int j \<and> A' k = moved j (A k) \<and>
         view (heap st') (A' k) = hit_view is_load j (view (heap st) (A k)) \<and>
         stats st' = hit_stats g is_load (dirty_at (heap st) (A k ! j)) (stats st) \<and>
         allocs st' = allocs st
     | None \<Rightarrow>
         if A k \<noteq> [] \<and> int (length (A k)) = g_E g
         then ty = - 2 \<and> A' k = tl (A k) @ [Suc (allocs st)] \<and>
              view (heap st') (A' k) = tl (view (heap st) (A k)) @ [new_entry st is_load tg] \<and>
              heap st' (hd (A k)) = None \<and>
              stats st' = evict_stats g is_load (dirty_at (heap st) (hd (A k))) (stats st) \<and>
              allocs st' = Suc (allocs st) \<and> calloc_ok ev (allocs st)
         else ty = - 1 \<and> A' k = A k @ [Suc (allocs st)] \<and>
              view (heap st') (A' k) = view (heap st) (A k) @ [new_entry st is_load tg] \<and>
              stats st' = miss_stats g is_load (stats st) \<and>
              allocs st' = Suc (allocs st) \<and> calloc_ok ev (allocs st)"
proof -
  let ?h = "heap st"
  let ?new = "Suc (allocs st)"
  from res obtain is_load tg sn where
    p: "parsing_line g r = Inr (is_load, tg, sn)"
    using loop_body_parse_fail [of g r _ ev st]
    by (cases "parsing_line g r") auto
  define k where "k = nat (sint sn)"
  have idx0: "0 \<le> sint sn \<and> sint sn < int (length (sets st))"
    using res loop_body_bad_index [OF p, of st ev] by auto
  then have idx: "0 \<le> sint sn" "k < length (sets st)"
    by (auto simp: k_def)
  let ?tags = "map (tag_at ?h) (A k)"
  define ty where "ty = (case first_pos tg ?tags of Some j \<Rightarrow> int j
     | None \<Rightarrow> if A k \<noteq> [] \<and> int (length (A k)) = g_E g then - 2 else - 1)"
  have mt: "miss_type g ?h (sets st ! k) sn tg = Inr ty"
    unfolding ty_def by (rule miss_type_inv [OF I idx(2)])
  note mt' = mt [unfolded k_def]
  note S = cache_inv_set [OF I idx(2)]
  have fresh: "?h ?new = None" by (rule cache_inv_fresh [OF I])
  have new_notin: "?new \<notin> set (A j)" if "j < length (sets st)" for j
    using cache_inv_set(3) [OF I that] fresh by auto
  have other: "view (heap st') (A j) = view ?h (A j)"
    if kp: "\<forall>a. a \<noteq> ?new \<longrightarrow> a \<notin> set (A k) \<longrightarrow> rel_option kept (?h a) (heap st' a)"
      and j: "j \<noteq> k" "j < length (sets st)" for j
  proof (rule view_kept, rule ballI)
    fix a assume a: "a \<in> set (A j)"
    then have "a \<noteq> ?new" using new_notin [OF j(2)] by auto
    moreover have "a \<notin> set (A k)" using cache_inv_disjoint [OF I j(2) idx(2) j(1)] a by auto
    ultimately show "rel_option kept (?h a) (heap st' a)" using kp by simp
  qed
  show ?thesis
  proof (cases "first_pos tg ?tags")
    case (Some j)
    from first_pos_Some [OF Some] have j: "j < length (A k)" by simp
    have ty: "ty = int j" using Some by (simp add: ty_def)
    have "hit g k (int j) is_load st = Inr st'"
      using res loop_body_hit [OF p idx(1) _ mt', of ev] idx0 ty by (simp add: k_def)
    with hit_inv [OF I idx(2) j, of g is_load] have
      H: "cache_inv st' (A(k := moved j (A k)))" "length (sets st') = length (sets st)"
        "allocs st' = allocs st"
        "stats st' = hit_stats g is_load (dirty_at ?h (A k ! j)) (stats st)"
        "\<forall>a. a \<noteq> A k ! j \<longrightarrow> rel_option kept (?h a) (heap st' a)"
        "tag_at (heap st') (A k ! j) = tag_at ?h (A k ! j)"
        "dirty_at (heap st') (A k ! j) = (if is_load = 0 then 1 else dirty_at ?h (A k ! j))"
      by auto
    have d: "distinct (A k)" by (rule S(2))
    have cur_notin: "A k ! j \<notin> set (take j (A k))" "A k ! j \<notin> set (drop (Suc j) (A k))"
      using d id_take_nth_drop [OF j] by (metis distinct_append distinct.simps(2) disjoint_insert(1) list.simps(15) not_distinct_conv_prefix append.assoc append_Cons, metis distinct_append distinct.simps(2))
    have v1: "view (heap st') (take j (A k)) = view ?h (take j (A k))"
      by (rule view_kept_except [where X = "{A k ! j}"]) (use H(5) cur_notin(1) in simp_all)
    have v2: "view (heap st') (drop (Suc j) (A k)) = view ?h (drop (Suc j) (A k))"
      by (rule view_kept_except [where X = "{A k ! j}"]) (use H(5) cur_notin(2) in simp_all)
    have "view (heap st') (moved j (A k)) = hit_view is_load j (view ?h (A k))"
      using j H(6,7) by (simp add: moved_def hit_view_def view_append v1 v2)
        (simp add: view_def take_map drop_map)
    moreover have kp: "\<forall>a. a \<noteq> ?new \<longrightarrow> a \<notin> set (A k) \<longrightarrow> rel_option kept (?h a) (heap st' a)"
    proof (intro allI impI)
      fix a assume "a \<notin> set (A k)"
      then have "a \<noteq> A k ! j" using j nth_mem by metis
      then show "rel_option kept (?h a) (heap st' a)" using H(5) by simp
    qed
    have "\<forall>i. i \<noteq> k \<longrightarrow> i < length (sets st) \<longrightarrow>
         (A(k := moved j (A k))) i = A i \<and> view (heap st') (A i) = view ?h (A i)"
      using other [OF kp] by simp
    ultimately show ?thesis
      using that [OF p idx(1) k_def idx(2) mt H(1,2)] Some ty H(3,4) by simp
  next
    case None
    then have nt: "tg \<notin> tag_at ?h ` set (A k)"
      by (simp add: first_pos_None)
    show ?thesis
    proof (cases "A k \<noteq> [] \<and> int (length (A k)) = g_E g")
      case True
      then have ty: "ty = - 2" using None by (simp add: ty_def)
      have r: "capacity_miss ev g k is_load tg st = Inr st'"
        using res loop_body_capacity [OF p idx(1), of st ev] idx0 mt' ty by (simp add: k_def)
      have ok: "calloc_ok ev (allocs st)" by (rule capacity_miss_Inr [OF r])
      have ne: "A k \<noteq> []" using True by simp
      from capacity_miss_inv [OF I idx(2) ok ne nt, of g is_load] r have
        H: "cache_inv st' (A(k := tl (A k) @ [?new]))" "length (sets st') = length (sets st)"
          "allocs st' = ?new" "heap st' ?new = Some (new_line_val is_load tg)"
          "heap st' (hd (A k)) = None"
          "\<forall>a. a \<noteq> ?new \<longrightarrow> a \<noteq> hd (A k) \<longrightarrow> rel_option kept (?h a) (heap st' a)"
          "stats st' = evict_stats g is_load (dirty_at ?h (hd (A k))) (stats st)"
        by auto
      have "hd (A k) \<notin> set (tl (A k))" using S(2) ne by (cases "A k") auto
      moreover have "set (tl (A k)) \<subseteq> set (A k)" using ne by (cases "A k") auto
      ultimately have "set (tl (A k)) \<inter> {?new, hd (A k)} = {}"
        using new_notin [OF idx(2)] by auto
      then have "view (heap st') (tl (A k)) = view ?h (tl (A k))"
        by (rule view_kept_except [rotated]) (use H(6) in simp)
      moreover have "view (heap st') [?new] = [new_entry st is_load tg]"
        using H(4) by (simp add: view_def new_entry_def tag_at_def dirty_at_def new_line_val_def)
      ultimately have "view (heap st') (tl (A k) @ [?new]) = tl (view ?h (A k)) @ [new_entry st is_load tg]"
        by (simp add: view_append view_tl)
      moreover have kp: "\<forall>a. a \<noteq> ?new \<longrightarrow> a \<notin> set (A k) \<longrightarrow> rel_option kept (?h a) (heap st' a)"
      proof (intro allI impI)
        fix a assume a: "a \<noteq> ?new" "a \<notin> set (A k)"
        then have "a \<noteq> hd (A k)" using ne hd_in_set by metis
        then show "rel_option kept (?h a) (heap st' a)" using H(6) a(1) by simp
      qed
      have "\<forall>i. i \<noteq> k \<longrightarrow> i < length (sets st) \<longrightarrow>
           (A(k := tl (A k) @ [?new])) i = A i \<and> view (heap st') (A i) = view ?h (A i)"
        using other [OF kp] by simp
      ultimately show ?thesis
        using that [OF p idx(1) k_def idx(2) mt H(1,2)] None True ty H(3,5,7) ok by simp
    next
      case False
      then have ty: "ty = - 1" using None by (simp add: ty_def)
      have r: "cold_miss ev g k is_load tg st = Inr st'"
        using res loop_body_cold [OF p idx(1), of st ev] idx0 mt' ty by (simp add: k_def)
      note ok = cold_miss_Inr [OF I idx(2) r]
      from cold_miss_inv [OF I idx(2) ok nt, of g is_load] r have
        H: "cache_inv st' (A(k := A k @ [?new]))" "length (sets st') = length (sets st)"
          "allocs st' = ?new" "heap st' ?new = Some (new_line_val is_load tg)"
          "\<forall>a. a \<noteq> ?new \<longrightarrow> rel_option kept (?h a) (heap st' a)"
          "stats st' = miss_stats g is_load (stats st)"
        by auto
      have "view (heap st') (A k) = view ?h (A k)"
        by (rule view_kept_except [where X = "{?new}"]) (use H(5) new_notin [OF idx(2)] in simp_all)
      moreover have "view (heap st') [?new] = [new_entry st is_load tg]"
        using H(4) by (simp add: view_def new_entry_def tag_at_def dirty_at_def new_line_val_def)
      ultimately have "view (heap st') (A k @ [?new]) = view ?h (A k) @ [new_entry st is_load tg]"
        by (simp add: view_append)
      moreover have kp: "\<forall>a. a \<noteq> ?new \<longrightarrow> a \<notin> set (A k) \<longrightarrow> rel_option kept (?h a) (heap st' a)"
        using H(5) by simp
      have "\<forall>i. i \<noteq> k \<longrightarrow> i < length (sets st) \<longrightarrow>
           (A(k := A k @ [?new])) i = A i \<and> view (heap st') (A i) = view ?h (A i)"
        using other [OF kp] by simp
      ultimately show ?thesis
        using that [OF p idx(1) k_def idx(2) mt H(1,2)] None False ty H(3,6) ok(1) by simp
    qed
  qed
qed

lemma lookup_Inr:
  assumes "parsing_line g r = Inr (is_load, tg, sn)" "0 \<le> sint sn"
    "nat (sint sn) < length (sets st)"
    "miss_type g (heap st) (sets st ! nat (sint sn)) sn tg = Inr ty"
  shows "lookup g st r = Inr (is_load, tg, nat (sint sn), ty)"
  using assms by (simp add: lookup_def)

lemma view_nth: "j < length as \<Longrightarrow> view h as ! j = (as ! j, tag_at h (as ! j), dirty_at h (as ! j))"
  by (simp add: view_def)

lemma view_hd: "as \<noteq> [] \<Longrightarrow> hd (view h as) = (hd as, tag_at h (hd as), dirty_at h (hd as))"
  by (cases as) (simp_all add: view_def)

lemma view_Nil: "view h as = [] \<longleftrightarrow> as = []"
  by (simp add: view_def)

lemma loop_body_abs:
  assumes I: "cache_inv st A" and res: "loop_body ev g st r = Inr st'"
  obtains is_load tg sn k A' ls where
    "parsing_line g r = Inr (is_load, tg, sn)" "0 \<le> sint sn" "k = nat (sint sn)"
    "lookup g st r = Inr (is_load, tg, k, step_type g tg ls)"
    "k < length (sets st)" "lru_order st k = Some ls"
    "cache_inv st' A'" "length (sets st') = length (sets st)"
    "lru_order st' k = Some (step_view g st is_load tg ls)"
    "\<forall>j<length (sets st). j \<noteq> k \<longrightarrow> lru_order st' j = lru_order st j"
    "stats st' = step_stats g is_load tg ls (stats st)"
    "first_pos tg (map (fst \<circ> snd) ls) = None \<longrightarrow>
       calloc_ok ev (allocs st) \<and> allocs st' = Suc (allocs st) \<and>
       (ls \<noteq> [] \<and> int (length ls) = g_E g \<longrightarrow> heap st' (fst (hd ls)) = None)"
    "first_pos tg (map (fst \<circ> snd) ls) \<noteq> None \<longrightarrow> allocs st' = allocs st"
proof -
  from loop_body_sim [OF I res] obtain is_load tg sn k ty A' where
    S: "parsing_line g r = Inr (is_load, tg, sn)" "0 \<le> sint sn" "k = nat (sint sn)"
    "k < length (sets st)"
    "miss_type g (heap st) (sets st ! k) sn tg = Inr ty"
    "cache_inv st' A'" "length (sets st') = length (sets st)"
    "\<forall>j. j \<noteq> k \<longrightarrow> j < length (sets st) \<longrightarrow>
         A' j = A j \<and> view (heap st') (A j) = view (heap st) (A j)"
    "case first_pos tg (map (tag_at (heap st)) (A k)) of
       Some j \<Rightarrow>
         ty = int j \<and> A' k = moved j (A k) \<and>
         view (heap st') (A' k) = hit_view is_load j (view (heap st) (A k)) \<and>
         stats st' = hit_stats g is_load (dirty_at (heap st) (A k ! j)) (stats st) \<and>
         allocs st' = allocs st
     | None \<Rightarrow>
         if A k \<noteq> [] \<and> int (length (A k)) = g_E g
         then ty = - 2 \<and> A' k = tl (A k) @ [Suc (allocs st)] \<and>
              view (heap st') (A' k) = tl (view (heap st) (A k)) @ [new_entry st is_load tg] \<and>
              heap st' (hd (A k)) = None \<and>
              stats st' = evict_stats g is_load (dirty_at (heap st) (hd (A k))) (stats st) \<and>
              allocs st' = Suc (allocs st) \<and> calloc_ok ev (allocs st)
         else ty = - 1 \<and> A' k = A k @ [Suc (allocs st)] \<and>
              view (heap st') (A' k) = view (heap st) (A k) @ [new_entry st is_load tg] \<and>
              stats st' = miss_stats g is_load (stats st) \<and>
              allocs st' = Suc (allocs st) \<and> calloc_ok ev (allocs st)"
    by blast
  define ls where "ls = view (heap st) (A k)"
  have tags: "map (fst \<circ> snd) ls = map (tag_at (heap st)) (A k)"
    by (simp add: ls_def view_tags)
  have ne: "ls \<noteq> [] \<longleftrightarrow> A k \<noteq> []" by (simp add: ls_def view_Nil)
  have len: "length ls = length (A k)" by (simp add: ls_def length_view)
  have k': "k < length (sets st')" using S(4,7) by simp
  have o: "lru_order st k = Some ls"
    unfolding ls_def by (rule lru_order_inv [OF I S(4)])
  have o': "lru_order st' k = Some (view (heap st') (A' k))"
    by (rule lru_order_inv [OF S(6) k'])
  have other: "\<forall>j<length (sets st). j \<noteq> k \<longrightarrow> lru_order st' j = lru_order st j"
  proof (intro allI impI)
    fix j assume j: "j < length (sets st)" "j \<noteq> k"
    then have "A' j = A j" "view (heap st') (A j) = view (heap st) (A j)"
      using S(8) by simp_all
    moreover have "lru_order st' j = Some (view (heap st') (A' j))"
      using j(1) S(7) by (intro lru_order_inv [OF S(6)]) simp
    moreover have "lru_order st j = Some (view (heap st) (A j))"
      by (rule lru_order_inv [OF I j(1)])
    ultimately show "lru_order st' j = lru_order st j" by simp
  qed
  show ?thesis
  proof (cases "first_pos tg (map (tag_at (heap st)) (A k))")
    case (Some j)
    from first_pos_Some [OF Some] have j: "j < length (A k)" by simp
    have d: "dirty_at (heap st) (A k ! j) = snd (snd (ls ! j))"
      using j by (simp add: ls_def view_nth)
    have "ty = int j \<and> A' k = moved j (A k) \<and>
         view (heap st') (A' k) = hit_view is_load j ls \<and>
         stats st' = hit_stats g is_load (dirty_at (heap st) (A k ! j)) (stats st) \<and>
         allocs st' = allocs st"
      unfolding ls_def by (rule S(9) [unfolded Some option.case])
    then have H: "ty = int j"
      "view (heap st') (A' k) = hit_view is_load j ls"
      "stats st' = hit_stats g is_load (dirty_at (heap st) (A k ! j)) (stats st)"
      "allocs st' = allocs st"
      by blast+
    have ty: "ty = step_type g tg ls" using H(1) Some by (simp add: step_type_def tags)
    have "lookup g st r = Inr (is_load, tg, k, step_type g tg ls)"
      using lookup_Inr [OF S(1,2)] S(3,4,5) ty by simp
    moreover have "lru_order st' k = Some (step_view g st is_load tg ls)"
      using o' H(2) Some by (simp add: step_view_def tags)
    moreover have "stats st' = step_stats g is_load tg ls (stats st)"
      using H(3) d Some by (simp add: step_stats_def tags)
    ultimately show ?thesis
      using that [OF S(1,2,3) _ S(4) o S(6,7) _ other] Some H(4) by (simp add: tags)
  next
    case None
    show ?thesis
    proof (cases "A k \<noteq> [] \<and> int (length (A k)) = g_E g")
      case True
      have "ty = - 2 \<and> A' k = tl (A k) @ [Suc (allocs st)] \<and>
              view (heap st') (A' k) = tl ls @ [new_entry st is_load tg] \<and>
              heap st' (hd (A k)) = None \<and>
              stats st' = evict_stats g is_load (dirty_at (heap st) (hd (A k))) (stats st) \<and>
              allocs st' = Suc (allocs st) \<and> calloc_ok ev (allocs st)"
        unfolding ls_def by (rule S(9) [unfolded None option.case if_P [OF True]])
      then have H: "ty = - 2"
        "view (heap st') (A' k) = tl ls @ [new_entry st is_load tg]"
        "heap st' (hd (A k)) = None"
        "stats st' = evict_stats g is_load (dirty_at (heap st) (hd (A k))) (stats st)"
        "allocs st' = Suc (allocs st)" "calloc_ok ev (allocs st)"
        by blast+
      have hd: "hd ls = (hd (A k), tag_at (heap st) (hd (A k)), dirty_at (heap st) (hd (A k)))"
        using True by (simp add: ls_def view_hd)
      have ty: "ty = step_type g tg ls" using H(1) None True by (simp add: step_type_def tags ne len)
      have "lookup g st r = Inr (is_load, tg, k, step_type g tg ls)"
        using lookup_Inr [OF S(1,2)] S(3,4,5) ty by simp
      moreover have "lru_order st' k = Some (step_view g st is_load tg ls)"
        using o' H(2) None True by (simp add: step_view_def tags ne len)
      moreover have "stats st' = step_stats g is_load tg ls (stats st)"
        using H(4) hd None True by (simp add: step_stats_def tags ne len)
      ultimately show ?thesis
        using that [OF S(1,2,3) _ S(4) o S(6,7) _ other] None H(3,5,6) hd by (simp add: tags)
    next
      case False
      have "ty = - 1 \<and> A' k = A k @ [Suc (allocs st)] \<and>
              view (heap st') (A' k) = ls @ [new_entry st is_load tg] \<and>
              stats st' = miss_stats g is_load (stats st) \<and>
              allocs st' = Suc (allocs st) \<and> calloc_ok ev (allocs st)"
        unfolding ls_def by (rule S(9) [unfolded None option.case if_not_P [OF False]])
      then have H: "ty = - 1"
        "view (heap st') (A' k) = ls @ [new_entry st is_load tg]"
        "stats st' = miss_stats g is_load (stats st)"
        "allocs st' = Suc (allocs st)" "calloc_ok ev (allocs st)"
        by blast+
      have F: "\<not> (ls \<noteq> [] \<and> int (length ls) = g_E g)" using False by (simp add: ne len)
      have ty: "ty = step_type g tg ls" using H(1) None F by (auto simp: step_type_def tags)
      have "lookup g st r = Inr (is_load, tg, k, step_type g tg ls)"
        using lookup_Inr [OF S(1,2)] S(3,4,5) ty by simp
      moreover have "lru_order st' k = Some (step_view g st is_load tg ls)"
        using o' H(2) None F by (auto simp: step_view_def tags)
      moreover have "stats st' = step_stats g is_load tg ls (stats st)"
        using H(3) None F by (auto simp: step_stats_def tags)
      ultimately show ?thesis
        using that [OF S(1,2,3) _ S(4) o S(6,7) _ other] None H(4,5) F by (auto simp: tags)
    qed
  qed
qed

lemma run_Inr_Cons:
  "run ev g st (r # rs) = Inr st' \<longleftrightarrow> (\<exists>s. loop_body ev g st r = Inr s \<and> run ev g s rs = Inr st')"
  by (simp add: then_do_eq_Inr)

lemma run_append:
  "run ev g st (xs @ ys) = then_do (run ev g st xs) (\<lambda>s. run ev g s ys)"
  by (induction xs arbitrary: st) (simp_all add: then_do_def split: sum.splits)

lemma run_invariant:
  assumes "run ev g st tr = Inr st'" "P st"
    and "\<And>s r s'. P s \<Longrightarrow> loop_body ev g s r = Inr s' \<Longrightarrow> P s'"
  shows "P st'"
  using assms(1,2)
proof (induction tr arbitrary: st)
  case Nil
  then show ?case by simp
next
  case (Cons r rs)
  from Cons.prems(1) obtain s where s: "loop_body ev g st r = Inr s" "run ev g s rs = Inr st'"
    unfolding run_Inr_Cons by blast
  from assms(3) [OF Cons.prems(2) s(1)] have "P s" .
  with Cons.IH [OF s(2)] show ?case .
qed

lemma init_state_inv: "cache_inv (init_state g) (\<lambda>k. [])"
  by (simp add: cache_inv_def init_state_def set_ok_def)

lemma loop_body_inv:
  assumes "\<exists>A. cache_inv s A" "loop_body ev g s r = Inr s'"
  shows "\<exists>A. cache_inv s' A"
proof -
  from assms(1) obtain A where A: "cache_inv s A" ..
  from loop_body_sim [OF A assms(2)] show ?thesis by metis
qed

lemma run_trace_inv:
  assumes "run_trace ev g tr = Inr st"
  shows "\<exists>A. cache_inv st A"
  by (rule run_invariant [OF assms [unfolded run_trace_def], where P = "\<lambda>s. \<exists>A. cache_inv s A"])
    (use init_state_inv loop_body_inv in blast)+

lemma set_ok_tags: "set_ok h c as \<Longrightarrow> distinct (map (tag_at h) as)"
  by (simp add: set_ok_def)

lemmas model_defs = run_trace_def init_state_def loop_body_def lookup_def parsing_line_def
  shr_long_def miss_type_def miss_type_loop.simps get_line_def get_line_loop.simps
  cold_miss_def capacity_miss_def hit_def hit_reorder_def blk_defs
  COLD_MISS_TYPE_def CAPACITY_MISS_TYPE_def int_result_def INT_MAX_def INT_MIN_def

lemmas example_defs = ok_env_def load_def store_def geometry_def

text \<open>
  C7. At every point of the processing of a trace, in every set, the resident lines
  have distinct tags.
\<close>

theorem tags_unique:
  assumes "run_trace ev g tr = Inr st" and "k < length (sets st)"
  shows "\<exists>ls. lru_order st k = Some ls \<and> distinct (map (fst \<circ> snd) ls)"
proof -
  from run_trace_inv [OF assms(1)] obtain A where A: "cache_inv st A" ..
  have "lru_order st k = Some (view (heap st) (A k))"
    by (rule lru_order_inv [OF A assms(2)])
  moreover have "distinct (map (tag_at (heap st)) (A k))"
    using cache_inv_set(1) [OF A assms(2)] by (rule set_ok_tags)
  ultimately show ?thesis by (simp add: view_tags)
qed

theorem tags_unique_witness:
  "\<exists>st. run_trace ok_env (geometry 0 2 0) [store 0, load 1, load 0, load 2] = Inr st \<and>
        0 < length (sets st) \<and>
        (\<exists>ls. lru_order st 0 = Some ls \<and> distinct (map (fst \<circ> snd) ls))"
proof -
  obtain st where st: "run_trace ok_env (geometry 0 2 0) [store 0, load 1, load 0, load 2] = Inr st"
    and n: "0 < length (sets st)"
    by (simp add: model_defs example_defs)
  from tags_unique [OF st n] st n show ?thesis by blast
qed

lemma run_snoc:
  "run ev g st (tr @ [r]) = Inr st' \<longleftrightarrow>
     (\<exists>s. run ev g st tr = Inr s \<and> loop_body ev g s r = Inr st')"
  by (simp add: run_append then_do_eq_Inr)

lemma run_states_snoc:
  "run ev g st tr = Inr s \<Longrightarrow> run_states ev g st (tr @ [r]) = run_states ev g st tr @ [s]"
proof (induction tr arbitrary: st)
  case Nil
  then show ?case by (simp split: sum.splits)
next
  case (Cons x xs)
  from Cons.prems obtain s1 where s1: "loop_body ev g st x = Inr s1" "run ev g s1 xs = Inr s"
    unfolding run_Inr_Cons by blast
  from Cons.IH [OF s1(2)] s1(1) show ?case by simp
qed

lemma length_run_states:
  "run ev g st tr = Inr s \<Longrightarrow> length (run_states ev g st tr) = length tr"
proof (induction tr arbitrary: st)
  case Nil
  then show ?case by simp
next
  case (Cons x xs)
  from Cons.prems obtain s1 where s1: "loop_body ev g st x = Inr s1" "run ev g s1 xs = Inr s"
    unfolding run_Inr_Cons by blast
  from Cons.IH [OF s1(2)] s1(1) show ?case by simp
qed

lemma trace_types_snoc:
  assumes "run_trace ev g tr = Inr s"
  shows "trace_types ev g (tr @ [r]) = trace_types ev g tr @ [access_type g s r]"
proof -
  note r = assms [unfolded run_trace_def]
  have "length (run_states ev g (init_state g) tr) = length tr"
    by (rule length_run_states [OF r])
  then show ?thesis
    by (simp add: trace_types_def run_states_snoc [OF r])
qed

lemma run_trace_induct [consumes 1, case_names init step]:
  assumes "run_trace ev g tr = Inr st"
    and "P [] (init_state g)"
    and "\<And>tr s r s' A. run_trace ev g tr = Inr s \<Longrightarrow> cache_inv s A \<Longrightarrow> P tr s \<Longrightarrow>
           loop_body ev g s r = Inr s' \<Longrightarrow> P (tr @ [r]) s'"
  shows "P tr st"
  using assms(1)
proof (induction tr arbitrary: st rule: rev_induct)
  case Nil
  then show ?case using assms(2) by (simp add: run_trace_def)
next
  case (snoc r tr)
  from snoc.prems obtain s where s: "run_trace ev g tr = Inr s" "loop_body ev g s r = Inr st"
    unfolding run_trace_def run_snoc by blast
  from run_trace_inv [OF s(1)] obtain A where "cache_inv s A" ..
  from assms(3) [OF s(1) this snoc.IH [OF s(1)] s(2)] show ?case .
qed

lemma run_trace_length:
  assumes "run_trace ev g tr = Inr st"
  shows "length (sets st) = nat (total_sets g)"
  using assms
proof (induction rule: run_trace_induct)
  case init
  show ?case by (simp add: init_state_def)
next
  case (step tr s r s' A)
  show ?case
  proof (rule loop_body_abs [OF step.hyps(2,3)])
    fix is_load tg sn k A' ls
    assume "length (sets s') = length (sets s)"
    with step.IH show ?thesis by simp
  qed
qed

lemma length_hit_view: "j < length ls \<Longrightarrow> length (hit_view is_load j ls) = length ls"
  by (simp add: hit_view_def)

lemma length_step_view:
  "length (step_view g st is_load tg ls) =
     (if first_pos tg (map (fst \<circ> snd) ls) = None \<and> \<not> (ls \<noteq> [] \<and> int (length ls) = g_E g)
      then Suc (length ls) else length ls)"
proof (cases "first_pos tg (map (fst \<circ> snd) ls)")
  case None
  then show ?thesis by (auto simp: step_view_def)
next
  case (Some j)
  from first_pos_Some [OF Some] have "j < length ls" by simp
  with Some show ?thesis by (simp add: step_view_def length_hit_view)
qed

lemma line_count_inv:
  assumes "cache_inv st A" "k < length (sets st)" "lru_order st k = Some ls"
  shows "line_count (sets st ! k) = int (length ls)"
proof -
  have "lru_order st k = Some (view (heap st) (A k))"
    by (rule lru_order_inv [OF assms(1,2)])
  with assms(3) have "length ls = length (A k)" by (auto simp: length_view)
  with cache_inv_set(1) [OF assms(1,2)] show ?thesis by (simp add: set_ok_def)
qed

text \<open>
  C6, amended. When the associativity \<open>E\<close> is at least 1, at every point of the
  processing of a trace no set holds more than \<open>E\<close> lines: neither the list of its
  resident lines nor its counter \<open>line_count\<close> exceeds \<open>E\<close>.
\<close>

theorem occupancy_bounded:
  assumes "run_trace ev g tr = Inr st" and "1 \<le> g_E g" and "k < length (sets st)"
  shows "\<exists>ls. lru_order st k = Some ls \<and> int (length ls) \<le> g_E g \<and>
              line_count (sets st ! k) = int (length ls)"
proof -
  have "\<forall>k<length (sets st). \<exists>ls. lru_order st k = Some ls \<and> int (length ls) \<le> g_E g"
    using assms(1)
  proof (induction rule: run_trace_induct)
    case init
    show ?case
      using lru_order_inv [OF init_state_inv, of _ g] assms(2) by (simp add: view_def)
  next
    case (step tr s r s' A)
    show ?case
    proof (rule loop_body_abs [OF step.hyps(2,3)])
      fix is_load tg sn k A' ls
      assume H: "k < length (sets s)" "lru_order s k = Some ls"
        "length (sets s') = length (sets s)"
        "lru_order s' k = Some (step_view g s is_load tg ls)"
        "\<forall>j<length (sets s). j \<noteq> k \<longrightarrow> lru_order s' j = lru_order s j"
      have b: "int (length ls) \<le> g_E g" using step.IH H(1,2) by auto
      have b': "int (length (step_view g s is_load tg ls)) \<le> g_E g"
        using b assms(2) by (auto simp: length_step_view)
      show ?thesis
      proof (intro allI impI)
        fix j assume j: "j < length (sets s')"
        show "\<exists>ls. lru_order s' j = Some ls \<and> int (length ls) \<le> g_E g"
        proof (cases "j = k")
          case True
          with H(4) b' show ?thesis by simp
        next
          case False
          with j H(3,5) have "lru_order s' j = lru_order s j" by simp
          with step.IH j H(3) show ?thesis by simp
        qed
      qed
    qed
  qed
  with assms(3) obtain ls where ls: "lru_order st k = Some ls" "int (length ls) \<le> g_E g"
    by blast
  from run_trace_inv [OF assms(1)] obtain A where "cache_inv st A" ..
  from line_count_inv [OF this assms(3) ls(1)] ls show ?thesis by blast
qed

theorem occupancy_bounded_witness:
  "\<exists>st. run_trace ok_env (geometry 0 2 0) [store 0, load 1, load 0, load 2] = Inr st \<and>
        1 \<le> g_E (geometry 0 2 0) \<and> 0 < length (sets st) \<and>
        (\<exists>ls. lru_order st 0 = Some ls \<and> int (length ls) \<le> g_E (geometry 0 2 0) \<and>
              line_count (sets st ! 0) = int (length ls))"
proof -
  obtain st where st: "run_trace ok_env (geometry 0 2 0) [store 0, load 1, load 0, load 2] = Inr st"
    and n: "0 < length (sets st)"
    by (simp add: model_defs example_defs)
  have E: "1 \<le> g_E (geometry 0 2 0)" by (simp add: geometry_def)
  from occupancy_bounded [OF st E n] st n E show ?thesis by blast
qed

theorem occupancy_exceeds_zero_associativity:
  "final_occupancy ok_env (geometry 0 0 0) [load 0] 0 = Some 1 \<and> g_E (geometry 0 0 0) = 0"
  by (simp add: final_occupancy_def occupancy_def lru_order_def model_defs example_defs)

lemma outcome_of_step_type: "outcome_of (step_type g tg ls) = Some (step_outcome g tg ls)"
  by (simp add: outcome_of_def step_type_def step_outcome_def COLD_MISS_TYPE_def
      CAPACITY_MISS_TYPE_def split: option.splits)

lemma branches_taken_step_type: "branches_taken (step_type g tg ls) = 1"
  by (simp add: branches_taken_def step_type_def COLD_MISS_TYPE_def
      CAPACITY_MISS_TYPE_def split: option.splits)

lemma step_stats_counters:
  "hits (step_stats g is_load tg ls a) = hits a + (if step_outcome g tg ls = Hit then 1 else 0)"
  "misses (step_stats g is_load tg ls a) =
     misses a + (if step_outcome g tg ls = ColdMiss then 1 else 0)
              + (if step_outcome g tg ls = CapacityMiss then 1 else 0)"
  "evictions (step_stats g is_load tg ls a) =
     evictions a + (if step_outcome g tg ls = CapacityMiss then 1 else 0)"
  by (simp_all add: step_stats_def step_outcome_def hit_stats_def miss_stats_def evict_stats_def
      split: option.splits)

lemma access_type_lookup:
  "lookup g st r = Inr (is_load, tg, k, ty) \<Longrightarrow> access_type g st r = Some ty"
  by (simp add: access_type_def)

lemma count_outcome_snoc:
  assumes "run_trace ev g tr = Inr s"
  shows "count_outcome ev g (tr @ [r]) oc =
           count_outcome ev g tr oc +
           (if Option.bind (access_type g s r) outcome_of = Some oc then 1 else 0)"
  by (simp add: count_outcome_def trace_types_snoc [OF assms])

lemma trace_types_Nil: "trace_types ev g [] = []"
  by (simp add: trace_types_def)

lemma count_outcome_Nil: "count_outcome ev g [] oc = 0"
  by (simp add: count_outcome_def trace_types_Nil)

text \<open>
  C4. Every processed access takes exactly one of the three branches of the loop body
  (cold miss, capacity miss, hit), and at every point of the processing of a trace the
  counters are the numbers of accesses of each kind: \<open>hits\<close> counts the hits, \<open>misses\<close>
  the cold and the capacity misses, \<open>evictions\<close> the capacity misses.
\<close>

theorem classification_counts:
  assumes "run_trace ev g tr = Inr st"
  shows "length (trace_types ev g tr) = length tr \<and>
         (\<forall>t\<in>set (trace_types ev g tr). \<exists>ty. t = Some ty \<and> branches_taken ty = 1) \<and>
         hits (stats st) = int (count_outcome ev g tr Hit) \<and>
         misses (stats st) =
           int (count_outcome ev g tr ColdMiss) + int (count_outcome ev g tr CapacityMiss) \<and>
         evictions (stats st) = int (count_outcome ev g tr CapacityMiss)"
  using assms
proof (induction rule: run_trace_induct)
  case init
  show ?case by (simp add: trace_types_Nil count_outcome_Nil init_state_def)
next
  case (step tr s r s' A)
  show ?case
  proof (rule loop_body_abs [OF step.hyps(2,3)])
    fix is_load tg sn k A' ls
    assume H: "lookup g s r = Inr (is_load, tg, k, step_type g tg ls)"
      "stats s' = step_stats g is_load tg ls (stats s)"
    have at: "access_type g s r = Some (step_type g tg ls)"
      by (rule access_type_lookup [OF H(1)])
    have tt: "trace_types ev g (tr @ [r]) = trace_types ev g tr @ [Some (step_type g tg ls)]"
      by (simp add: trace_types_snoc [OF step.hyps(1)] at)
    have cnt: "count_outcome ev g (tr @ [r]) oc =
        count_outcome ev g tr oc + (if step_outcome g tg ls = oc then 1 else 0)" for oc
      by (simp add: count_outcome_snoc [OF step.hyps(1)] at outcome_of_step_type)
    from step.IH show ?thesis
      by (simp add: tt cnt H(2) step_stats_counters branches_taken_step_type)
  qed
qed

theorem classification_counts_witness:
  "\<exists>st. run_trace ok_env (geometry 0 2 0) [store 0, load 1, load 0, load 2] = Inr st \<and>
        hits (stats st) = int (count_outcome ok_env (geometry 0 2 0) [store 0, load 1, load 0, load 2] Hit) \<and>
        misses (stats st) = 3 \<and> evictions (stats st) = 1 \<and> hits (stats st) = 1"
proof -
  obtain st where st: "run_trace ok_env (geometry 0 2 0) [store 0, load 1, load 0, load 2] = Inr st"
    and n: "misses (stats st) = 3" "evictions (stats st) = 1" "hits (stats st) = 1"
    by (simp add: model_defs example_defs)
  from classification_counts [OF st] st n show ?thesis by blast
qed

lemma sum_list_change:
  fixes f f' :: "nat \<Rightarrow> nat"
  assumes "k < n" "\<forall>j<n. j \<noteq> k \<longrightarrow> f' j = f j"
  shows "sum_list (map f' [0..<n]) + f k = sum_list (map f [0..<n]) + f' k"
proof -
  have 1: "sum_list (map h [0..<n]) = h k + sum h ({0..<n} - {k})" for h :: "nat \<Rightarrow> nat"
    using assms(1) by (simp add: interv_sum_list_conv_sum_set_nat sum.remove [of _ k])
  have "sum f' ({0..<n} - {k}) = sum f ({0..<n} - {k})"
    using assms(2) by (intro sum.cong) auto
  then show ?thesis by (simp add: 1)
qed

lemma occupancy_step:
  assumes "k < length (sets s)" "lru_order s k = Some ls"
    "length (sets s') = length (sets s)" "lru_order s' k = Some ls'"
    "\<forall>j<length (sets s). j \<noteq> k \<longrightarrow> lru_order s' j = lru_order s j"
  shows "resident_lines s' + length ls = resident_lines s + length ls'"
proof -
  let ?f = "\<lambda>st k. case occupancy st k of None \<Rightarrow> 0 | Some n \<Rightarrow> n"
  have "\<forall>j<length (sets s). j \<noteq> k \<longrightarrow> ?f s' j = ?f s j"
    using assms(5) by (simp add: occupancy_def)
  from sum_list_change [OF assms(1) this] show ?thesis
    using assms(2,3,4) by (simp add: resident_lines_def occupancy_def)
qed

lemma step_outcome_zero: "g_E g = 0 \<Longrightarrow> step_outcome g tg ls \<noteq> CapacityMiss"
  by (auto simp: step_outcome_def split: option.splits)

lemma step_type_capacity:
  "step_type g tg ls = CAPACITY_MISS_TYPE \<longleftrightarrow> step_outcome g tg ls = CapacityMiss"
  by (auto simp: step_type_def step_outcome_def CAPACITY_MISS_TYPE_def split: option.splits)

lemma step_type_capacity':
  "CAPACITY_MISS_TYPE = step_type g tg ls \<longleftrightarrow> step_outcome g tg ls = CapacityMiss"
  using step_type_capacity [of g tg ls] by auto

lemma walk_unfold:
  "walk h p n =
     (if n = 0 then Some ([], p)
      else case h p of
             None \<Rightarrow> None
           | Some l \<Rightarrow> (case walk h (nxt l) (n - 1) of
                         None \<Rightarrow> None
                       | Some (ls, q) \<Rightarrow> Some ((p, l) # ls, q)))"
proof (cases n)
  case 0
  then show ?thesis by simp
next
  case (Suc m)
  have "Suc m - 1 = m" by simp
  then show ?thesis unfolding Suc by (simp only: walk.simps nat.simps if_False)
qed

lemmas view_defs = occupancy_def lru_order_def walk_unfold

lemma length_step_view_outcome:
  "length (step_view g st is_load tg ls) =
     length ls + (if step_outcome g tg ls = ColdMiss then 1 else 0)"
  by (auto simp: length_step_view step_outcome_def split: option.splits)

lemma resident_lines_init: "resident_lines (init_state g) = 0"
proof -
  have "occupancy (init_state g) k = Some 0" if "k < length (sets (init_state g))" for k
    using lru_order_inv [OF init_state_inv that] by (simp add: occupancy_def view_def)
  then show ?thesis
    by (simp add: resident_lines_def)
qed

text \<open>
  C10. When the associativity \<open>E\<close> is 0, no access of a trace is a capacity miss, the
  counter \<open>evictions\<close> stays 0, and every miss adds a line that is never removed: the
  number of resident lines is the number of misses, whatever \<open>E\<close> says.
\<close>

theorem zero_associativity_never_evicts:
  assumes "run_trace ev g tr = Inr st" and "g_E g = 0"
  shows "Some CAPACITY_MISS_TYPE \<notin> set (trace_types ev g tr) \<and>
         evictions (stats st) = 0 \<and>
         misses (stats st) = int (resident_lines st)"
  using assms(1)
proof (induction rule: run_trace_induct)
  case init
  show ?case by (simp add: trace_types_Nil resident_lines_init) (simp add: init_state_def)
next
  case (step tr s r s' A)
  show ?case
  proof (rule loop_body_abs [OF step.hyps(2,3)])
    fix is_load tg sn k A' ls
    assume H: "lookup g s r = Inr (is_load, tg, k, step_type g tg ls)"
      "stats s' = step_stats g is_load tg ls (stats s)"
      "k < length (sets s)" "lru_order s k = Some ls"
      "length (sets s') = length (sets s)"
      "lru_order s' k = Some (step_view g s is_load tg ls)"
      "\<forall>j<length (sets s). j \<noteq> k \<longrightarrow> lru_order s' j = lru_order s j"
    have at: "access_type g s r = Some (step_type g tg ls)"
      by (rule access_type_lookup [OF H(1)])
    have tt: "trace_types ev g (tr @ [r]) = trace_types ev g tr @ [Some (step_type g tg ls)]"
      by (simp add: trace_types_snoc [OF step.hyps(1)] at)
    note nc = step_outcome_zero [OF assms(2), of tg ls]
    have "resident_lines s' + length ls = resident_lines s + length (step_view g s is_load tg ls)"
      by (rule occupancy_step [OF H(3,4,5,6,7)])
    then have res: "int (resident_lines s') =
        int (resident_lines s) + (if step_outcome g tg ls = ColdMiss then 1 else 0)"
      by (simp add: length_step_view_outcome)
    from step.IH nc show ?thesis
      by (simp add: tt H(2) step_stats_counters step_type_capacity' res)
  qed
qed

theorem zero_associativity_never_evicts_witness:
  "\<exists>st. run_trace ok_env (geometry 0 0 0) [load 0, load 1, load 0, store 2] = Inr st \<and>
        g_E (geometry 0 0 0) = 0 \<and> evictions (stats st) = 0 \<and> misses (stats st) = 3 \<and>
        misses (stats st) = int (resident_lines st) \<and> occupancy st 0 = Some 3"
proof -
  obtain st where st: "run_trace ok_env (geometry 0 0 0) [load 0, load 1, load 0, store 2] = Inr st"
    and n: "misses (stats st) = 3" "occupancy st 0 = Some 3"
    by (simp add: model_defs example_defs view_defs)
  have E: "g_E (geometry 0 0 0) = 0" by (simp add: geometry_def)
  from zero_associativity_never_evicts [OF st E] st n E show ?thesis by blast
qed

lemma pow2_closed: "pow2 n = (if 2 ^ nat \<bar>n\<bar> \<le> INT_MAX then Inr (2 ^ nat \<bar>n\<bar>) else Inl Undefined)"
proof (induction n rule: pow2.induct)
  case (1 index)
  show ?case
  proof (cases "index = 0")
    case True
    then show ?thesis by (subst pow2.simps) (simp add: INT_MAX_def)
  next
    case False
    define m where "m = nat \<bar>index sdiv 2\<bar>"
    define a where "a = nat \<bar>index\<bar>"
    define x :: int where "x = 2 ^ m"
    have m: "m = a div 2"
      by (simp add: m_def a_def signed_divide_int_def abs_mult sgn_if nat_div_distrib)
    have ev: "index smod 2 = 0 \<longleftrightarrow> even a"
      by (auto simp: a_def signed_modulo_int_def sgn_if even_nat_iff)
    have IH: "pow2 (index sdiv 2) = (if x \<le> INT_MAX then Inr x else Inl Undefined)"
      using "1.IH" [OF False] by (simp add: m_def x_def)
    have x1: "1 \<le> x" by (simp add: x_def)
    have xx: "x \<le> x * x" using x1 mult_left_mono [of 1 x x] by simp
    have xx2: "2 * x \<le> 2 * x * x" using xx by simp
    have lo: "INT_MIN \<le> x * x" "INT_MIN \<le> 2 * x" "INT_MIN \<le> 2 * x * x"
      using x1 xx xx2 unfolding INT_MIN_def by linarith+
    have big: "\<not> x \<le> INT_MAX \<Longrightarrow> \<not> x * x \<le> INT_MAX"
      "\<not> x \<le> INT_MAX \<Longrightarrow> \<not> 2 * x * x \<le> INT_MAX"
      "\<not> 2 * x \<le> INT_MAX \<Longrightarrow> \<not> 2 * x * x \<le> INT_MAX"
      using x1 xx xx2 by linarith+
    show ?thesis
    proof (cases "even a")
      case True
      then have e: "a = m + m" using m by presburger
      have p: "(2::int) ^ a = x * x" by (simp add: e power_add x_def)
      have "pow2 index = (if x * x \<le> INT_MAX then Inr (x * x) else Inl Undefined)"
        using False ev True
        by (subst pow2.simps) (simp add: IH int_result_def lo big)
      then show ?thesis by (simp add: a_def [symmetric] p)
    next
      case False
      then have e: "a = Suc (m + m)" using m by presburger
      have p: "(2::int) ^ a = 2 * x * x" by (simp add: e power_add x_def)
      have "pow2 index = (if 2 * x * x \<le> INT_MAX then Inr (2 * x * x) else Inl Undefined)"
        using \<open>index \<noteq> 0\<close> ev False
        by (subst pow2.simps) (simp add: IH int_result_def lo big)
      then show ?thesis by (simp add: a_def [symmetric] p)
    qed
  qed
qed

lemma pow2_Inr:
  assumes "pow2 n = Inr v"
  shows "v = 2 ^ nat \<bar>n\<bar>" "\<bar>n\<bar> \<le> 30"
proof -
  from assms have le: "(2::int) ^ nat \<bar>n\<bar> \<le> INT_MAX" and v: "v = 2 ^ nat \<bar>n\<bar>"
    by (auto simp: pow2_closed split: if_splits)
  show "v = 2 ^ nat \<bar>n\<bar>" by (rule v)
  show "\<bar>n\<bar> \<le> 30"
  proof (rule ccontr)
    assume "\<not> \<bar>n\<bar> \<le> 30"
    then have "31 \<le> nat \<bar>n\<bar>" by simp
    then have "(2::int) ^ 31 \<le> 2 ^ nat \<bar>n\<bar>" by (intro power_increasing) simp_all
    with le show False by (simp add: INT_MAX_def)
  qed
qed

lemma set_global_values_Inr:
  assumes "set_global_values s E b = Inr g"
  shows "g = \<lparr>g_s = s, g_E = E, g_b = b, total_sets = 2 ^ nat \<bar>s\<bar>, total_bytes = 2 ^ nat \<bar>b\<bar>,
              set_mask = word_of_int (2 ^ nat \<bar>s\<bar> - 1)\<rparr>"
    "\<bar>s\<bar> \<le> 30" "\<bar>b\<bar> \<le> 30"
proof -
  from assms obtain ts tb m where
    r: "pow2 s = Inr ts" "pow2 b = Inr tb" "int_result (ts - 1) = Inr m"
      "g = \<lparr>g_s = s, g_E = E, g_b = b, total_sets = ts, total_bytes = tb, set_mask = word_of_int m\<rparr>"
    by (auto simp: set_global_values_def split: sum.splits)
  from r(3) have m: "m = ts - 1" by (auto simp: int_result_def split: if_splits)
  from pow2_Inr [OF r(1)] pow2_Inr [OF r(2)] r(4) m
  show "g = \<lparr>g_s = s, g_E = E, g_b = b, total_sets = 2 ^ nat \<bar>s\<bar>, total_bytes = 2 ^ nat \<bar>b\<bar>,
              set_mask = word_of_int (2 ^ nat \<bar>s\<bar> - 1)\<rparr>"
    "\<bar>s\<bar> \<le> 30" "\<bar>b\<bar> \<le> 30"
    by simp_all
qed

lemma set_global_values_total:
  assumes "\<bar>s\<bar> \<le> 30" "\<bar>b\<bar> \<le> 30"
  shows "set_global_values s E b =
     Inr \<lparr>g_s = s, g_E = E, g_b = b, total_sets = 2 ^ nat \<bar>s\<bar>, total_bytes = 2 ^ nat \<bar>b\<bar>,
              set_mask = word_of_int (2 ^ nat \<bar>s\<bar> - 1)\<rparr>"
proof -
  have le: "(2::int) ^ nat \<bar>n\<bar> \<le> INT_MAX" if "\<bar>n\<bar> \<le> 30" for n
  proof -
    have "(2::int) ^ nat \<bar>n\<bar> \<le> 2 ^ 30" using that by (intro power_increasing) simp_all
    then show ?thesis by (simp add: INT_MAX_def)
  qed
  have "(1::int) \<le> 2 ^ nat \<bar>s\<bar>" by simp
  then have "INT_MIN \<le> 2 ^ nat \<bar>s\<bar> - 1" unfolding INT_MIN_def by linarith
  moreover have "(2::int) ^ nat \<bar>s\<bar> - 1 \<le> INT_MAX" using le [OF assms(1)] by linarith
  ultimately have "int_result (2 ^ nat \<bar>s\<bar> - 1) = Inr (2 ^ nat \<bar>s\<bar> - 1)"
    by (simp add: int_result_def)
  with le [OF assms(1)] le [OF assms(2)] show ?thesis
    by (simp add: set_global_values_def pow2_closed)
qed

text \<open>
  The arithmetic shift of the program and the logical shift of the specification:
  below the mask of the set index they agree for every address, and on the whole word
  they agree exactly when the sign bit of the address is clear or nothing is shifted.
\<close>

lemma low_bits_shift:
  fixes A :: long
  assumes "s + b \<le> 64"
  shows "signed_drop_bit b A AND mask s = drop_bit b A AND mask s"
proof (rule bit_word_eqI)
  fix n :: nat
  assume "n < LENGTH(64)"
  show "bit (signed_drop_bit b A AND mask s) n \<longleftrightarrow> bit (drop_bit b A AND mask s) n"
    using assms by (auto simp: bit_simps)
qed

lemma unat_set_index:
  fixes A :: long
  assumes "s + b \<le> 64"
  shows "unat (signed_drop_bit b A AND (2 ^ s - 1)) = spec_set_index (unat A) s b"
proof -
  have "unat (signed_drop_bit b A AND mask s) = drop_bit b (unat A) AND mask s"
    unfolding low_bits_shift [OF assms]
    by (rule bit_eqI) (use assms in \<open>auto simp: bit_simps\<close>)
  then show ?thesis
    by (simp add: spec_set_index_def mask_eq_exp_minus_1)
qed

lemma sign_bit_unat:
  fixes A :: long
  shows "bit A 63 \<longleftrightarrow> \<not> unat A < 2 ^ 63"
proof -
  have "bit A 63 \<longleftrightarrow> bit (unat A) 63" by (simp add: bit_simps)
  also have "\<dots> \<longleftrightarrow> \<not> unat A < 2 ^ 63"
  proof
    assume "bit (unat A) 63"
    then show "\<not> unat A < 2 ^ 63" by (auto simp: bit_iff_odd)
  next
    assume "\<not> unat A < 2 ^ 63"
    moreover have "unat A < 2 ^ 64" using unsigned_less [of A] by simp
    ultimately have "unat A div 2 ^ 63 = 1" by (simp add: div_nat_eqI)
    then show "bit (unat A) 63" by (simp add: bit_iff_odd)
  qed
  finally show ?thesis .
qed

lemma tag_agrees:
  fixes A :: long
  shows "unat (signed_drop_bit n A) = drop_bit n (unat A) \<longleftrightarrow> unat A < 2 ^ 63 \<or> n = 0"
proof (cases "bit A 63 \<and> n \<noteq> 0")
  case False
  have "signed_drop_bit n A = drop_bit n A"
  proof (rule bit_word_eqI)
    fix k :: nat
    assume "k < LENGTH(64)"
    show "bit (signed_drop_bit n A) k \<longleftrightarrow> bit (drop_bit n A) k"
      using False \<open>k < LENGTH(64)\<close>
      by (cases "n = 0") (auto simp: bit_simps dest: bit_imp_le_length)
  qed
  then have "unat (signed_drop_bit n A) = drop_bit n (unat A)"
    by (simp add: unat_drop_bit_eq)
  with False show ?thesis by (auto simp: sign_bit_unat)
next
  case True
  from True have "64 - n \<le> 63" by arith
  with True have "bit (signed_drop_bit n A) 63" by (simp add: bit_simps)
  then have "bit (unat (signed_drop_bit n A)) 63" by (simp add: bit_simps)
  moreover have "\<not> bit (drop_bit n (unat A)) 63"
    using True by (auto simp: bit_simps dest: bit_imp_le_length)
  ultimately have "unat (signed_drop_bit n A) \<noteq> drop_bit n (unat A)" by metis
  with True show ?thesis by (auto simp: sign_bit_unat)
qed

lemma unat_tag:
  fixes A :: long
  shows "unat (signed_drop_bit (s + b) A) = spec_tag (unat A) s b \<longleftrightarrow>
           unat A < 2 ^ 63 \<or> s + b = 0"
  unfolding spec_tag_def by (rule tag_agrees)

text \<open>
  C5, as the code behaves. The specification takes the address \<open>A\<close> to be an unsigned
  integer; the program reads it into a \<open>long\<close> and shifts that signed value. For widths
  \<open>s\<close> and \<open>b\<close> from 0 to 30, \<open>set_global_values\<close> succeeds and \<open>parsing_line\<close> never fails,
  for every trace line. Read as an unsigned number, the set index it returns is
  \<open>(A >> b) & ((1 << s) - 1)\<close>, for every 64-bit address. The tag it returns is the
  arithmetic shift of the address by \<open>s + b\<close>; read as an unsigned number it is
  \<open>A >> (s + b)\<close> exactly when \<open>A\<close> is below \<open>2 ^ 63\<close> or \<open>s + b = 0\<close>. With \<open>s = 0\<close> the
  configuration is accepted and the set index is 0.
\<close>

theorem address_decomposition:
  assumes "0 \<le> s" and "s \<le> 30" and "0 \<le> b" and "b \<le> 30"
  shows "(\<exists>g tg set_num.
           set_global_values s E b = Inr g \<and>
           parsing_line g r = Inr (if op_char r = CHR ''S'' then 0 else 1, tg, set_num) \<and>
           unat set_num = spec_set_index (unat (address r)) (nat s) (nat b) \<and>
           tg = signed_drop_bit (nat s + nat b) (address r) \<and>
           ((unat tg = spec_tag (unat (address r)) (nat s) (nat b)) =
              (unat (address r) < 2 ^ 63 \<or> s + b = 0))) \<and>
         (\<exists>g tg.
           set_global_values 0 E b = Inr g \<and>
           parsing_line g r = Inr (if op_char r = CHR ''S'' then 0 else 1, tg, 0))"
proof -
  define g where "g = \<lparr>g_s = s, g_E = E, g_b = b, total_sets = 2 ^ nat \<bar>s\<bar>,
    total_bytes = 2 ^ nat \<bar>b\<bar>, set_mask = word_of_int (2 ^ nat \<bar>s\<bar> - 1)\<rparr>"
  have a: "\<bar>s\<bar> = s" "\<bar>b\<bar> = b" using assms by simp_all
  have c: "set_global_values s E b = Inr g"
    unfolding g_def using assms by (intro set_global_values_total) simp_all
  have g: "g_s g = s" "g_b g = b" "set_mask g = 2 ^ nat s - 1"
    by (simp_all add: g_def a word_of_int_2p)
  define set_num where "set_num = signed_drop_bit (nat b) (address r) AND (2 ^ nat s - 1)"
  define tg where "tg = signed_drop_bit (nat s + nat b) (address r)"
  have r: "0 \<le> s \<and> s < 64" "0 \<le> b \<and> b < 64" using assms by simp_all
  have p: "parsing_line g r = Inr (if op_char r = CHR ''S'' then 0 else 1, tg, set_num)"
    unfolding parsing_line_def shr_long_def g set_num_def tg_def using r by simp
  have le: "nat s + nat b \<le> 64" using assms by simp
  have i: "unat set_num = spec_set_index (unat (address r)) (nat s) (nat b)"
    unfolding set_num_def by (rule unat_set_index [OF le])
  have "nat s + nat b = 0 \<longleftrightarrow> s + b = 0" using assms by auto
  then have t: "(unat tg = spec_tag (unat (address r)) (nat s) (nat b)) =
              (unat (address r) < 2 ^ 63 \<or> s + b = 0)"
    unfolding tg_def unat_tag by simp
  define g0 where "g0 = \<lparr>g_s = 0, g_E = E, g_b = b, total_sets = 2 ^ nat \<bar>0\<bar>,
    total_bytes = 2 ^ nat \<bar>b\<bar>, set_mask = word_of_int (2 ^ nat \<bar>0\<bar> - 1)\<rparr>"
  have c0: "set_global_values 0 E b = Inr g0"
    unfolding g0_def using assms by (intro set_global_values_total) simp_all
  have p0: "parsing_line g0 r =
      Inr (if op_char r = CHR ''S'' then 0 else 1, signed_drop_bit (nat b) (address r), 0)"
    unfolding parsing_line_def shr_long_def using r by (simp add: g0_def)
  from c p i t tg_def c0 p0 show ?thesis by blast
qed

text \<open>
  The decomposition of the address \<open>0x1234\<close> with \<open>s = 2\<close> and \<open>b = 3\<close>: set index 2 and
  tag \<open>0x91\<close>.
\<close>

theorem address_decomposition_witness:
  "(0::int) \<le> 2 \<and> (2::int) \<le> 30 \<and> (0::int) \<le> 3 \<and> (3::int) \<le> 30 \<and>
   set_global_values 2 1 3 = Inr (geometry 2 1 3) \<and>
   parsing_line (geometry 2 1 3) (load 0x1234) = Inr (1, 0x91, 2) \<and>
   spec_set_index 0x1234 2 3 = 2 \<and> spec_tag 0x1234 2 3 = 0x91"
proof -
  have h: "(0::int) \<le> 2" "(2::int) \<le> 30" "(0::int) \<le> 3" "(3::int) \<le> 30" by simp_all
  have c: "set_global_values 2 1 3 = Inr (geometry 2 1 3)"
    by (simp add: set_global_values_total geometry_def)
  have p: "parsing_line (geometry 2 1 3) (load 0x1234) = Inr (1, 0x91, 2)"
    by (simp add: parsing_line_def shr_long_def geometry_def load_def)
  from address_decomposition [OF h, of 1 "load 0x1234", THEN conjunct1] c p
  have "spec_set_index 0x1234 2 3 = 2 \<and> spec_tag 0x1234 2 3 = 0x91"
    by (auto simp: load_def)
  with c p show ?thesis by simp
qed

text \<open>
  C5 as the specification states it fails at the address \<open>0x8000000000000000\<close> with
  \<open>s = b = 1\<close>: the tag of the program is \<open>0xE000000000000000\<close>, the sign bit copied into
  the vacated positions, where \<open>A >> (s + b)\<close> on the unsigned address is
  \<open>0x2000000000000000\<close>; the set index is 0 on both sides. And the widths are bounded: with
  \<open>s = 31\<close> the computation of \<open>2 ^ s\<close> in \<open>pow2\<close> overflows an \<open>int\<close>.
\<close>

theorem sign_bit_address_tag:
  "set_global_values 1 1 1 = Inr (geometry 1 1 1) \<and>
   parsing_line (geometry 1 1 1) (load 0x8000000000000000) = Inr (1, 0xE000000000000000, 0) \<and>
   spec_tag (unat (0x8000000000000000 :: long)) 1 1 = 0x2000000000000000 \<and>
   unat (0xE000000000000000 :: long) \<noteq> spec_tag (unat (0x8000000000000000 :: long)) 1 1 \<and>
   spec_set_index (unat (0x8000000000000000 :: long)) 1 1 = 0 \<and>
   set_global_values 31 1 1 = Inl Undefined"
  by (simp add: set_global_values_total set_global_values_def pow2_closed INT_MAX_def INT_MIN_def
      int_result_def geometry_def load_def parsing_line_def shr_long_def spec_tag_def
      spec_set_index_def)

text \<open>
  C8, as the code behaves. \<open>set_global_values\<close> checks nothing: for every \<open>E\<close> and for
  \<open>s\<close> and \<open>b\<close> from -30 to 30 it succeeds, with \<open>2 ^ \<bar>s\<bar>\<close> sets, and \<open>main\<close> then goes on
  to the loop over the trace; before the loop \<open>main\<close> can only abort because an
  allocation fails or the trace file cannot be opened.
\<close>

theorem no_configuration_error:
  assumes "\<bar>s\<bar> \<le> 30" and "\<bar>b\<bar> \<le> 30"
    and "calloc_ok ev 0" and "calloc_ok ev 1" and "trace_file ev = Some tr"
  shows "\<exists>g. set_global_values s E b = Inr g \<and> g_E g = E \<and> total_sets g = 2 ^ nat \<bar>s\<bar> \<and>
             main ev s E b = then_do (run_trace ev g tr) (\<lambda>st. Inr (stats st))"
  using assms
  by (simp add: main_def run_trace_def set_global_values_total)

theorem no_configuration_error_witness:
  "\<bar>- 1 :: int\<bar> \<le> 30 \<and> calloc_ok (ok_env\<lparr>trace_file := Some []\<rparr>) 0 \<and>
   trace_file (ok_env\<lparr>trace_file := Some []\<rparr>) = Some [] \<and>
   (\<exists>g. set_global_values (- 1) 0 (- 1) = Inr g \<and> g_E g = 0 \<and> total_sets g = 2 ^ nat \<bar>- 1\<bar> \<and>
        main (ok_env\<lparr>trace_file := Some []\<rparr>) (- 1) 0 (- 1) =
          then_do (run_trace (ok_env\<lparr>trace_file := Some []\<rparr>) g []) (\<lambda>st. Inr (stats st)))"
proof -
  have a: "\<bar>- 1 :: int\<bar> \<le> 30" by simp
  have c: "calloc_ok (ok_env\<lparr>trace_file := Some []\<rparr>) 0" "calloc_ok (ok_env\<lparr>trace_file := Some []\<rparr>) 1"
    by (simp_all add: ok_env_def)
  have f: "trace_file (ok_env\<lparr>trace_file := Some []\<rparr>) = Some []" by simp
  from no_configuration_error [OF a a c f, of 0] a c f show ?thesis by blast
qed

theorem zero_associativity_accepted:
  "main (ok_env\<lparr>trace_file := Some [load 0]\<rparr>) 0 0 0 =
     Inr \<lparr>hits = 0, misses = 1, evictions = 0, dirty_bytes = 0, dirty_evictions = 0\<rparr>"
  by (simp add: main_def set_global_values_total model_defs example_defs)

text \<open>
  C9, as the code behaves. A trace line whose operation character is \<open>I\<close> is processed
  exactly as a load of the same address: \<open>parsing_line\<close> treats every character other
  than \<open>S\<close> as a load.
\<close>

theorem instruction_fetch_is_load:
  assumes "op_char r = CHR ''I''"
  shows "parsing_line g r = parsing_line g (r\<lparr>op_char := CHR ''L''\<rparr>) \<and>
         loop_body ev g st r = loop_body ev g st (r\<lparr>op_char := CHR ''L''\<rparr>)"
proof -
  have "parsing_line g r = parsing_line g (r\<lparr>op_char := CHR ''L''\<rparr>)"
    using assms by (simp add: parsing_line_def)
  then show ?thesis by (simp add: loop_body_def lookup_def)
qed

theorem instruction_fetch_is_load_witness:
  "op_char (fetch 0) = CHR ''I'' \<and>
   loop_body ok_env (geometry 0 1 0) (init_state (geometry 0 1 0)) (fetch 0) =
   loop_body ok_env (geometry 0 1 0) (init_state (geometry 0 1 0)) (load 0)"
proof -
  have a: "op_char (fetch 0) = CHR ''I''" by (simp add: fetch_def)
  from instruction_fetch_is_load [OF a] a show ?thesis
    by (simp add: fetch_def load_def)
qed

theorem instruction_fetch_counted:
  "main (ok_env\<lparr>trace_file := Some [fetch 0]\<rparr>) 0 1 0 =
     Inr \<lparr>hits = 0, misses = 1, evictions = 0, dirty_bytes = 0, dirty_evictions = 0\<rparr>"
  by (simp add: main_def set_global_values_total model_defs example_defs fetch_def)

lemma dirty_count_Nil: "dirty_count [] = 0"
  by (simp add: dirty_count_def)

lemma dirty_count_append: "dirty_count (xs @ ys) = dirty_count xs + dirty_count ys"
  by (simp add: dirty_count_def)

lemma dirty_count_single: "dirty_count [(a, t, d)] = (if d = 1 then 1 else 0)"
  by (simp add: dirty_count_def)

lemma dirty_count_Cons: "dirty_count (x # xs) = (if snd (snd x) = 1 then 1 else 0) + dirty_count xs"
  by (cases x) (simp add: dirty_count_def)

lemma dirty_count_hit_view:
  assumes "j < length ls"
  shows "dirty_count (hit_view is_load j ls) + (if snd (snd (ls ! j)) = 1 then 1 else 0) =
         dirty_count ls + (if is_load = 0 \<or> snd (snd (ls ! j)) = 1 then 1 else 0)"
proof -
  obtain a t d where x: "ls ! j = (a, t, d)" by (cases "ls ! j")
  have "dirty_count ls = dirty_count (take j ls @ (ls ! j) # drop (Suc j) ls)"
    using id_take_nth_drop [OF assms] by simp
  then have "dirty_count ls =
      dirty_count (take j ls) + (if d = 1 then 1 else 0) + dirty_count (drop (Suc j) ls)"
    by (simp add: dirty_count_append dirty_count_Cons x)
  then show ?thesis
    by (simp add: hit_view_def dirty_count_append dirty_count_single x)
qed

lemma lru_order_bits:
  assumes "cache_inv st A" "k < length (sets st)" "lru_order st k = Some ls"
  shows "\<forall>x\<in>set ls. snd (snd x) = 0 \<or> snd (snd x) = 1"
proof -
  have ls: "ls = view (heap st) (A k)"
    using lru_order_inv [OF assms(1,2)] assms(3) by simp
  have "dirty_at (heap st) a = 0 \<or> dirty_at (heap st) a = 1" if "a \<in> set (A k)" for a
  proof -
    from that cache_inv_set(3) [OF assms(1,2)] obtain l where l: "heap st a = Some l" by auto
    with assms(1) have "line_ok l" by (simp add: cache_inv_def)
    with l show ?thesis by (simp add: dirty_at_def line_ok_def)
  qed
  then show ?thesis by (auto simp: ls view_def)
qed

lemma step_dirty:
  assumes bits: "\<forall>x\<in>set ls. snd (snd x) = 0 \<or> snd (snd x) = 1"
  shows "dirty_bytes (step_stats g is_load tg ls a) + total_bytes g * int (dirty_count ls) =
           dirty_bytes a + total_bytes g * int (dirty_count (step_view g st is_load tg ls))"
proof (cases "first_pos tg (map (fst \<circ> snd) ls)")
  case (Some j)
  from first_pos_Some [OF Some] have j: "j < length ls" by simp
  then have "snd (snd (ls ! j)) = 0 \<or> snd (snd (ls ! j)) = 1"
    using bits nth_mem by blast
  moreover note dirty_count_hit_view [OF j, of is_load]
  ultimately have "int (dirty_count (hit_view is_load j ls)) =
      int (dirty_count ls) + (if is_load = 0 \<and> snd (snd (ls ! j)) = 0 then 1 else 0)"
    by (auto split: if_splits)
  then show ?thesis
    using Some by (simp add: step_stats_def step_view_def hit_stats_def algebra_simps)
next
  case None
  show ?thesis
  proof (cases "ls \<noteq> [] \<and> int (length ls) = g_E g")
    case True
    then obtain x rest where ls: "ls = x # rest" by (cases ls) auto
    show ?thesis
      using None True
      by (simp add: step_stats_def step_view_def evict_stats_def new_entry_def ls
          dirty_count_append dirty_count_single dirty_count_Cons dirty_count_Nil algebra_simps)
  next
    case False
    then show ?thesis
      using None
      by (auto simp add: step_stats_def step_view_def miss_stats_def new_entry_def
          dirty_count_append dirty_count_single algebra_simps)
  qed
qed

lemma step_dirty_evictions:
  "dirty_evictions (step_stats g is_load tg ls a) =
     dirty_evictions a +
     (if step_outcome g tg ls = CapacityMiss \<and> snd (snd (hd ls)) = 1 then total_bytes g else 0)"
  by (simp add: step_stats_def step_outcome_def hit_stats_def miss_stats_def evict_stats_def
      split: option.splits)

lemma evicts_dirty_step:
  assumes "lookup g s r = Inr (is_load, tg, k, step_type g tg ls)" "lru_order s k = Some ls"
  shows "evicts_dirty g s r \<longleftrightarrow> step_outcome g tg ls = CapacityMiss \<and> snd (snd (hd ls)) = 1"
proof (cases ls)
  case Nil
  then show ?thesis
    using assms by (simp add: evicts_dirty_def step_type_capacity step_outcome_def split: option.splits)
next
  case (Cons x rest)
  then show ?thesis
    using assms by (cases x) (simp add: evicts_dirty_def step_type_capacity)
qed

lemma dirty_lines_step:
  assumes "k < length (sets s)" "lru_order s k = Some ls"
    "length (sets s') = length (sets s)" "lru_order s' k = Some ls'"
    "\<forall>j<length (sets s). j \<noteq> k \<longrightarrow> lru_order s' j = lru_order s j"
  shows "dirty_lines s' + dirty_count ls = dirty_lines s + dirty_count ls'"
proof -
  let ?f = "\<lambda>st k. case lru_order st k of None \<Rightarrow> 0 | Some ls \<Rightarrow> dirty_count ls"
  have "\<forall>j<length (sets s). j \<noteq> k \<longrightarrow> ?f s' j = ?f s j"
    using assms(5) by simp
  from sum_list_change [OF assms(1) this] show ?thesis
    using assms(2,3,4) by (simp add: dirty_lines_def)
qed

lemma dirty_lines_init: "dirty_lines (init_state g) = 0"
proof -
  have "lru_order (init_state g) k = Some []" if "k < length (sets (init_state g))" for k
    using lru_order_inv [OF init_state_inv that] by (simp add: view_def)
  then show ?thesis
    by (simp add: dirty_lines_def dirty_count_def)
qed

lemma dirty_evicted_Nil: "dirty_evicted ev g [] = 0"
  by (simp add: dirty_evicted_def)

lemma dirty_evicted_snoc:
  assumes "run_trace ev g tr = Inr s"
  shows "dirty_evicted ev g (tr @ [r]) = dirty_evicted ev g tr + (if evicts_dirty g s r then 1 else 0)"
proof -
  note r = assms [unfolded run_trace_def]
  have "length (run_states ev g (init_state g) tr) = length tr"
    by (rule length_run_states [OF r])
  then show ?thesis
    by (simp add: dirty_evicted_def run_states_snoc [OF r])
qed

lemma dirty_inv:
  assumes "run_trace ev g tr = Inr st"
  shows "dirty_bytes (stats st) = total_bytes g * int (dirty_lines st) \<and>
         dirty_evictions (stats st) = total_bytes g * int (dirty_evicted ev g tr)"
  using assms
proof (induction rule: run_trace_induct)
  case init
  show ?case by (simp add: dirty_lines_init dirty_evicted_Nil) (simp add: init_state_def)
next
  case (step tr s r s' A)
  show ?case
  proof (rule loop_body_abs [OF step.hyps(2,3)])
    fix is_load tg sn k A' ls
    assume H: "lookup g s r = Inr (is_load, tg, k, step_type g tg ls)"
      "stats s' = step_stats g is_load tg ls (stats s)"
      "k < length (sets s)" "lru_order s k = Some ls"
      "length (sets s') = length (sets s)"
      "lru_order s' k = Some (step_view g s is_load tg ls)"
      "\<forall>j<length (sets s). j \<noteq> k \<longrightarrow> lru_order s' j = lru_order s j"
    note bits = lru_order_bits [OF step.hyps(2) H(3,4)]
    have "dirty_lines s' + dirty_count ls = dirty_lines s + dirty_count (step_view g s is_load tg ls)"
      by (rule dirty_lines_step [OF H(3,4,5,6,7)])
    then have dl: "int (dirty_lines s') =
        int (dirty_lines s) + int (dirty_count (step_view g s is_load tg ls)) - int (dirty_count ls)"
      by linarith
    have db: "dirty_bytes (stats s') = total_bytes g * int (dirty_lines s')"
      using step_dirty [OF bits, of g is_load tg "stats s" s] step.IH
      by (simp add: H(2) dl algebra_simps)
    have de: "dirty_evictions (stats s') = total_bytes g * int (dirty_evicted ev g (tr @ [r]))"
      using step.IH
      by (simp add: H(2) step_dirty_evictions dirty_evicted_snoc [OF step.hyps(1)]
          evicts_dirty_step [OF H(1,4)] algebra_simps)
    from db de show ?thesis by simp
  qed
qed

lemma dirty_step:
  assumes "run_trace ev g tr = Inr st" and "loop_body ev g st r = Inr st'"
  shows "dirty_evictions (stats st') =
           dirty_evictions (stats st) + (if evicts_dirty g st r then total_bytes g else 0) \<and>
         (store_hits_dirty g st r \<longrightarrow> dirty_bytes (stats st') = dirty_bytes (stats st))"
proof -
  from run_trace_inv [OF assms(1)] obtain A where A: "cache_inv st A" ..
  show ?thesis
  proof (rule loop_body_abs [OF A assms(2)])
    fix is_load tg sn k A' ls
    assume H: "lookup g st r = Inr (is_load, tg, k, step_type g tg ls)"
      "stats st' = step_stats g is_load tg ls (stats st)"
      "lru_order st k = Some ls"
    have 1: "dirty_evictions (stats st') =
           dirty_evictions (stats st) + (if evicts_dirty g st r then total_bytes g else 0)"
      by (simp add: H(2) step_dirty_evictions evicts_dirty_step [OF H(1,3)])
    have 2: "dirty_bytes (stats st') = dirty_bytes (stats st)" if "store_hits_dirty g st r"
    proof -
      from that have s: "is_load = 0" "0 \<le> step_type g tg ls"
        "snd (snd (ls ! nat (step_type g tg ls))) = 1"
        by (simp_all add: store_hits_dirty_def H(1,3))
      from s(2) obtain j where j: "first_pos tg (map (fst \<circ> snd) ls) = Some j"
        by (cases "first_pos tg (map (fst \<circ> snd) ls)") (auto simp: step_type_def split: if_splits)
      then have "step_type g tg ls = int j" by (simp add: step_type_def)
      with s(3) have "snd (snd (ls ! j)) = 1" by simp
      then show ?thesis
        using j by (simp add: H(2) step_stats_def hit_stats_def)
    qed
    from 1 2 show ?thesis by blast
  qed
qed

text \<open>
  C3. With block-offset width \<open>b\<close>, a line has \<open>2 ^ b\<close> bytes. At every point of the
  processing of a trace, \<open>dirty_bytes\<close> is that size times the number of resident lines
  whose dirty bit is set, and \<open>dirty_evictions\<close> is that size times the number of dirty
  lines evicted so far; an access adds the line size to \<open>dirty_evictions\<close> when it evicts
  a dirty line and nothing otherwise; and a store that hits a line that is already dirty leaves
  \<open>dirty_bytes\<close> as it was.
\<close>

theorem dirty_accounting:
  assumes "set_global_values s E b = Inr g" and "0 \<le> b"
    and "run_trace ev g tr = Inr st" and "loop_body ev g st r = Inr st'"
  shows "total_bytes g = 2 ^ nat b \<and>
         dirty_bytes (stats st) = 2 ^ nat b * int (dirty_lines st) \<and>
         dirty_evictions (stats st) = 2 ^ nat b * int (dirty_evicted ev g tr) \<and>
         dirty_evictions (stats st') =
           dirty_evictions (stats st) + (if evicts_dirty g st r then 2 ^ nat b else 0) \<and>
         (store_hits_dirty g st r \<longrightarrow> dirty_bytes (stats st') = dirty_bytes (stats st))"
proof -
  have tb: "total_bytes g = 2 ^ nat b"
    using set_global_values_Inr(1) [OF assms(1)] assms(2) by simp
  from dirty_inv [OF assms(3)] dirty_step [OF assms(3,4)] show ?thesis
    unfolding tb by simp
qed

theorem dirty_accounting_witness:
  "\<exists>st st'. set_global_values 0 1 1 = Inr (geometry 0 1 1) \<and> (0::int) \<le> 1 \<and>
     run_trace ok_env (geometry 0 1 1) [store 0, store 1] = Inr st \<and>
     loop_body ok_env (geometry 0 1 1) st (load 8) = Inr st' \<and>
     store_hits_dirty (geometry 0 1 1) (init_state (geometry 0 1 1)) (store 0) = False \<and>
     dirty_bytes (stats st) = 2 \<and> dirty_lines st = 1 \<and>
     evicts_dirty (geometry 0 1 1) st (load 8) \<and>
     dirty_evictions (stats st') = dirty_evictions (stats st) + 2"
proof -
  have c: "set_global_values 0 1 1 = Inr (geometry 0 1 1)"
    by (simp add: set_global_values_total geometry_def)
  have z: "(0::int) \<le> 1" by simp
  obtain st where st: "run_trace ok_env (geometry 0 1 1) [store 0, store 1] = Inr st"
    and v: "dirty_bytes (stats st) = 2" "evicts_dirty (geometry 0 1 1) st (load 8)"
    by (simp add: model_defs example_defs evicts_dirty_def view_defs)
  obtain st' where st': "loop_body ok_env (geometry 0 1 1) st (load 8) = Inr st'"
    using st by (auto simp add: model_defs example_defs then_do_eq_Inr)
  have n: "store_hits_dirty (geometry 0 1 1) (init_state (geometry 0 1 1)) (store 0) = False"
    by (simp add: store_hits_dirty_def model_defs example_defs)
  show ?thesis
    by (rule exI [of _ st], rule exI [of _ st'])
      (use dirty_accounting [OF c z st st'] c st st' v n in simp)
qed

lemma loop_body_total:
  assumes I: "cache_inv st A" and p: "parsing_line g r = Inr (is_load, tg, sn)"
    and idx: "0 \<le> sint sn" "nat (sint sn) < length (sets st)"
    and miss: "tg \<notin> tag_at (heap st) ` set (A (nat (sint sn))) \<Longrightarrow>
       calloc_ok ev (allocs st) \<and>
       (A (nat (sint sn)) \<noteq> [] \<and> int (length (A (nat (sint sn)))) = g_E g \<or>
        int (length (A (nat (sint sn)))) < INT_MAX)"
  shows "\<exists>st'. loop_body ev g st r = Inr st'"
proof -
  define k where "k = nat (sint sn)"
  have k: "k < length (sets st)" using idx(2) by (simp add: k_def)
  have idx': "sint sn < int (length (sets st))" using idx by simp
  note mt = miss_type_inv [OF I k, of g sn tg, unfolded k_def]
  show ?thesis
  proof (cases "first_pos tg (map (tag_at (heap st)) (A k))")
    case (Some j)
    from first_pos_Some [OF Some] have j: "j < length (A k)" by simp
    have "miss_type g (heap st) (sets st ! nat (sint sn)) sn tg = Inr (int j)"
      using mt Some by (simp add: k_def)
    from loop_body_hit [OF p idx(1) idx' this, of ev]
    have "loop_body ev g st r = hit g k (int j) is_load st" by (simp add: k_def)
    with hit_inv [OF I k j, of g is_load] show ?thesis by auto
  next
    case None
    then have nt: "tg \<notin> tag_at (heap st) ` set (A k)" by (simp add: first_pos_None)
    from miss nt have ok: "calloc_ok ev (allocs st)"
      and rng: "A k \<noteq> [] \<and> int (length (A k)) = g_E g \<or> int (length (A k)) < INT_MAX"
      by (simp_all add: k_def)
    show ?thesis
    proof (cases "A k \<noteq> [] \<and> int (length (A k)) = g_E g")
      case True
      have "miss_type g (heap st) (sets st ! nat (sint sn)) sn tg = Inr (- 2)"
        using mt None True by (simp add: k_def)
      from loop_body_capacity [OF p idx(1) idx' this, of ev]
      have "loop_body ev g st r = capacity_miss ev g k is_load tg st" by (simp add: k_def)
      with capacity_miss_inv [OF I k ok _ nt, of g is_load] True show ?thesis by auto
    next
      case False
      have "miss_type g (heap st) (sets st ! nat (sint sn)) sn tg = Inr (- 1)"
        using mt None False by (auto simp add: k_def)
      from loop_body_cold [OF p idx(1) idx' this, of ev]
      have "loop_body ev g st r = cold_miss ev g k is_load tg st" by (simp add: k_def)
      from rng False have "int (length (A k)) < INT_MAX" by blast
      from cold_miss_inv [OF I k ok this nt, of g is_load]
        \<open>loop_body ev g st r = cold_miss ev g k is_load tg st\<close>
      show ?thesis by auto
    qed
  qed
qed

lemma first_pos_nth_distinct:
  "distinct xs \<Longrightarrow> j < length xs \<Longrightarrow> first_pos (xs ! j) xs = Some j"
proof (induction xs arbitrary: j)
  case Nil
  then show ?case by simp
next
  case (Cons x xs)
  show ?case
  proof (cases j)
    case 0
    then show ?thesis by simp
  next
    case (Suc i)
    with Cons.prems have i: "i < length xs" "distinct xs" "x \<noteq> xs ! i" by auto
    from Cons.IH [OF i(2,1)] i(3) Suc show ?thesis by simp
  qed
qed

lemma lru_order_Some_index: "lru_order st k = Some ls \<Longrightarrow> k < length (sets st)"
  by (auto simp: lru_order_def Let_def split: if_splits)

text \<open>
  C1. An access that hits a resident line, at whatever position \<open>j\<close> of the order of its
  set, succeeds; afterwards that line is the last (most recently used) of the order, with
  its dirty bit set if the access was a store, the other lines of the set follow one another
  as before, and the other sets are as they were.
\<close>

theorem hit_moves_line_to_back:
  assumes "run_trace ev g tr = Inr st"
    and "parsing_line g r = Inr (is_load, tg, sn)" and "0 \<le> sint sn"
    and "lru_order st (nat (sint sn)) = Some ls"
    and "j < length ls" and "fst (snd (ls ! j)) = tg"
  shows "\<exists>st'. loop_body ev g st r = Inr st' \<and>
           lru_order st' (nat (sint sn)) =
             Some (take j ls @ drop (Suc j) ls @
                   [(fst (ls ! j), tg, if is_load = 0 then 1 else snd (snd (ls ! j)))]) \<and>
           (\<forall>k<length (sets st). k \<noteq> nat (sint sn) \<longrightarrow> lru_order st' k = lru_order st k)"
proof -
  define k where "k = nat (sint sn)"
  from run_trace_inv [OF assms(1)] obtain A where A: "cache_inv st A" ..
  have k: "k < length (sets st)"
    using lru_order_Some_index [OF assms(4)] by (simp add: k_def)
  have ls: "ls = view (heap st) (A k)"
    using lru_order_inv [OF A k] assms(4) by (simp add: k_def)
  have tags: "map (fst \<circ> snd) ls = map (tag_at (heap st)) (A k)"
    by (simp add: ls view_tags)
  have d: "distinct (map (fst \<circ> snd) ls)"
    unfolding tags using cache_inv_set(1) [OF A k] by (rule set_ok_tags)
  have fp: "first_pos tg (map (fst \<circ> snd) ls) = Some j"
    using first_pos_nth_distinct [OF d, of j] assms(5,6) by simp
  have "tg \<in> tag_at (heap st) ` set (A k)"
    using fp tags first_pos_None [of tg "map (fst \<circ> snd) ls"] by auto
  then obtain st' where st': "loop_body ev g st r = Inr st'"
    using loop_body_total [OF A assms(2,3), of ev] k by (auto simp: k_def)
  show ?thesis
  proof (rule loop_body_abs [OF A st'])
    fix is_load' tg' sn' k' A' ls'
    assume H: "parsing_line g r = Inr (is_load', tg', sn')" "k' = nat (sint sn')"
      "lru_order st k' = Some ls'"
      "lru_order st' k' = Some (step_view g st is_load' tg' ls')"
      "\<forall>j<length (sets st). j \<noteq> k' \<longrightarrow> lru_order st' j = lru_order st j"
    from H(1) assms(2) have e: "is_load' = is_load" "tg' = tg" "sn' = sn" by simp_all
    from H(2,3) assms(4) have l: "k' = nat (sint sn)" "ls' = ls" by (simp_all add: e)
    have "step_view g st is_load tg ls =
        take j ls @ drop (Suc j) ls @
        [(fst (ls ! j), tg, if is_load = 0 then 1 else snd (snd (ls ! j)))]"
      using fp assms(6) by (auto simp: step_view_def hit_view_def split: prod.splits)
    with H(4,5) st' show ?thesis by (simp add: e l)
  qed
qed

theorem hit_moves_line_to_back_witness:
  "\<exists>st st'. run_trace ok_env (geometry 0 3 0) [load 5, store 6, load 7] = Inr st \<and>
     parsing_line (geometry 0 3 0) (store 5) = Inr (0, 5, 0) \<and>
     lru_order st 0 = Some [(3, 5, 0), (4, 6, 1), (5, 7, 0)] \<and>
     loop_body ok_env (geometry 0 3 0) st (store 5) = Inr st' \<and>
     lru_order st' 0 = Some [(4, 6, 1), (5, 7, 0), (3, 5, 1)]"
proof -
  obtain st where st: "run_trace ok_env (geometry 0 3 0) [load 5, store 6, load 7] = Inr st"
    and v: "lru_order st 0 = Some [(3, 5, 0), (4, 6, 1), (5, 7, 0)]"
    by (simp add: model_defs example_defs view_defs)
  have p: "parsing_line (geometry 0 3 0) (store 5) = Inr (0, 5, 0)"
    by (simp add: parsing_line_def shr_long_def example_defs)
  have z: "0 \<le> sint (0 :: long)" by simp
  have v': "lru_order st (nat (sint (0 :: long))) = Some [(3, 5, 0), (4, 6, 1), (5, 7, 0)]"
    using v by simp
  have j: "0 < length [(3 :: addr, 5 :: long, 0 :: int), (4, 6, 1), (5, 7, 0)]" by simp
  have t: "fst (snd ([(3 :: addr, 5 :: long, 0 :: int), (4, 6, 1), (5, 7, 0)] ! 0)) = 5" by simp
  from hit_moves_line_to_back [OF st p z v' j t] st p v
  show ?thesis by auto
qed

lemma last_ref_snoc:
  "last_ref g (tr @ [r]) k tg = (if refers g r k tg then Some (length tr) else last_ref g tr k tg)"
proof -
  have "filter (\<lambda>i. refers g ((tr @ [r]) ! i) k tg) (rev [0..<length tr]) =
        filter (\<lambda>i. refers g (tr ! i) k tg) (rev [0..<length tr])"
    by (rule filter_cong) (simp_all add: nth_append)
  then show ?thesis by (simp add: last_ref_def)
qed

lemma last_ref_less: "last_ref g tr k tg = Some i \<Longrightarrow> i < length tr"
proof -
  assume a: "last_ref g tr k tg = Some i"
  then obtain "is" where "filter (\<lambda>i. refers g (tr ! i) k tg) (rev [0..<length tr]) = i # is"
    by (auto simp: last_ref_def split: list.splits)
  then have "i \<in> set (filter (\<lambda>i. refers g (tr ! i) k tg) (rev [0..<length tr]))" by simp
  then show ?thesis by simp
qed

lemma older_snoc:
  assumes "None \<notin> set xs" "\<forall>x\<in>set xs. \<forall>i. x = Some i \<longrightarrow> i < n" "sorted_wrt older xs"
  shows "sorted_wrt older (xs @ [Some n])"
proof -
  have "older x (Some n)" if "x \<in> set xs" for x
  proof (cases x)
    case None
    with that assms(1) show ?thesis by simp
  next
    case (Some i)
    with that assms(2) show ?thesis by (simp add: older_def)
  qed
  with assms(3) show ?thesis by (simp add: sorted_wrt_append)
qed

lemma in_lru_order_step:
  assumes old: "in_lru_order g tr k ls"
    and sub: "set ls' \<subseteq> set ls" "sorted_wrt older (ref_times g tr k ls')"
    and ne: "\<forall>x\<in>set ls'. fst (snd x) \<noteq> tg"
    and rf: "\<And>t. refers g r k t \<longleftrightarrow> t = tg"
  shows "in_lru_order g (tr @ [r]) k (ls' @ [(a, tg, d)])"
proof -
  have keep: "ref_times g (tr @ [r]) k ls' = ref_times g tr k ls'"
    unfolding ref_times_def
    by (rule map_cong) (use ne rf in \<open>simp_all add: last_ref_snoc\<close>)
  have new: "ref_times g (tr @ [r]) k [(a, tg, d)] = [Some (length tr)]"
    by (simp add: ref_times_def last_ref_snoc rf)
  have nn: "None \<notin> set (ref_times g tr k ls')"
    using old sub(1) by (auto simp: in_lru_order_def ref_times_def)
  have lt: "\<forall>x\<in>set (ref_times g tr k ls'). \<forall>i. x = Some i \<longrightarrow> i < length tr"
    by (auto simp: ref_times_def dest: last_ref_less)
  have "ref_times g (tr @ [r]) k (ls' @ [(a, tg, d)]) = ref_times g tr k ls' @ [Some (length tr)]"
    using keep new by (simp add: ref_times_def)
  with older_snoc [OF nn lt sub(2)] nn show ?thesis
    by (simp add: in_lru_order_def)
qed

lemma ref_times_append: "ref_times g tr k (xs @ ys) = ref_times g tr k xs @ ref_times g tr k ys"
  by (simp add: ref_times_def)

lemma refers_parse:
  assumes "parsing_line g r = Inr (is_load, tg, sn)" "0 \<le> sint sn"
  shows "refers g r k t \<longleftrightarrow> nat (sint sn) = k \<and> t = tg"
  using assms by (auto simp: refers_def)

lemma ref_times_other:
  assumes "\<And>t. \<not> refers g r k t"
  shows "ref_times g (tr @ [r]) k ls = ref_times g tr k ls"
  by (simp add: ref_times_def last_ref_snoc assms)

lemma lru_order_distinct:
  assumes "cache_inv st A" "k < length (sets st)" "lru_order st k = Some ls"
  shows "distinct (map (fst \<circ> snd) ls)"
proof -
  have "ls = view (heap st) (A k)"
    using lru_order_inv [OF assms(1,2)] assms(3) by simp
  then have "map (fst \<circ> snd) ls = map (tag_at (heap st)) (A k)" by (simp add: view_tags)
  with cache_inv_set(1) [OF assms(1,2)] show ?thesis by (simp add: set_ok_def)
qed

lemma in_lru_order_step_view:
  assumes old: "in_lru_order g tr k ls" and d: "distinct (map (fst \<circ> snd) ls)"
    and rf: "\<And>t. refers g r k t \<longleftrightarrow> t = tg"
  shows "in_lru_order g (tr @ [r]) k (step_view g st is_load tg ls)"
proof (cases "first_pos tg (map (fst \<circ> snd) ls)")
  case (Some j)
  from first_pos_Some [OF Some] have j: "j < length ls" and tj: "fst (snd (ls ! j)) = tg"
    by auto
  let ?ls' = "take j ls @ drop (Suc j) ls"
  have dec: "ls = take j ls @ (ls ! j) # drop (Suc j) ls"
    using j by (rule id_take_nth_drop)
  have "sorted_wrt older (ref_times g tr k (take j ls @ (ls ! j) # drop (Suc j) ls))"
    using old dec by (simp add: in_lru_order_def)
  then have s: "sorted_wrt older (ref_times g tr k ?ls')"
    by (simp add: ref_times_def sorted_wrt_append)
  have sub: "set ?ls' \<subseteq> set ls"
    by (metis dec set_append set_subset_Cons Un_mono subset_refl)
  have "distinct (map (fst \<circ> snd) (take j ls @ (ls ! j) # drop (Suc j) ls))"
    using d dec by simp
  then have "tg \<notin> (\<lambda>x. fst (snd x)) ` set ?ls'"
    using tj by auto
  then have ne: "\<forall>x\<in>set ?ls'. fst (snd x) \<noteq> tg"
    by blast
  obtain a t dd where x: "ls ! j = (a, t, dd)" by (cases "ls ! j")
  with tj have t: "t = tg" by simp
  have "step_view g st is_load tg ls = ?ls' @ [(a, tg, if is_load = 0 then 1 else dd)]"
    using Some by (simp add: step_view_def hit_view_def x t)
  with in_lru_order_step [OF old sub s ne rf] show ?thesis by simp
next
  case None
  then have nt: "\<forall>x\<in>set ls. fst (snd x) \<noteq> tg"
    by (auto simp: first_pos_None)
  show ?thesis
  proof (cases "ls \<noteq> [] \<and> int (length ls) = g_E g")
    case True
    then obtain x rest where ls: "ls = x # rest" by (cases ls) auto
    have sub: "set (tl ls) \<subseteq> set ls" by (auto simp: ls)
    have s: "sorted_wrt older (ref_times g tr k (tl ls))"
      using old by (simp add: in_lru_order_def ls ref_times_def)
    have ne: "\<forall>x\<in>set (tl ls). fst (snd x) \<noteq> tg" using nt sub by blast
    have "step_view g st is_load tg ls = tl ls @ [(Suc (allocs st), tg, if is_load = 0 then 1 else 0)]"
      using None True by (simp add: step_view_def new_entry_def)
    with in_lru_order_step [OF old sub s ne rf] show ?thesis by simp
  next
    case False
    have s: "sorted_wrt older (ref_times g tr k ls)"
      using old by (simp add: in_lru_order_def)
    have "step_view g st is_load tg ls = ls @ [(Suc (allocs st), tg, if is_load = 0 then 1 else 0)]"
      using None False by (auto simp: step_view_def new_entry_def)
    with in_lru_order_step [OF old subset_refl s nt rf] show ?thesis by simp
  qed
qed

lemma lru_history:
  assumes "run_trace ev g tr = Inr st"
  shows "\<forall>k<length (sets st). \<forall>ls. lru_order st k = Some ls \<longrightarrow> in_lru_order g tr k ls"
  using assms
proof (induction rule: run_trace_induct)
  case init
  have "lru_order (init_state g) k = Some []" if "k < length (sets (init_state g))" for k
    using lru_order_inv [OF init_state_inv that] by (simp add: view_def)
  then show ?case by (auto simp: in_lru_order_def ref_times_def)
next
  case (step tr s r s' A)
  show ?case
  proof (rule loop_body_abs [OF step.hyps(2,3)])
    fix is_load tg sn k A' ls
    assume H: "parsing_line g r = Inr (is_load, tg, sn)" "0 \<le> sint sn" "k = nat (sint sn)"
      "k < length (sets s)" "lru_order s k = Some ls"
      "length (sets s') = length (sets s)"
      "lru_order s' k = Some (step_view g s is_load tg ls)"
      "\<forall>j<length (sets s). j \<noteq> k \<longrightarrow> lru_order s' j = lru_order s j"
    note rp = refers_parse [OF H(1,2)]
    show ?thesis
    proof (intro allI impI)
      fix j ls' assume j: "j < length (sets s')" and o: "lru_order s' j = Some ls'"
      show "in_lru_order g (tr @ [r]) j ls'"
      proof (cases "j = k")
        case True
        have old: "in_lru_order g tr k ls" using step.IH H(4,5) by blast
        have d: "distinct (map (fst \<circ> snd) ls)"
          by (rule lru_order_distinct [OF step.hyps(2) H(4,5)])
        have rf: "refers g r k t \<longleftrightarrow> t = tg" for t
          using rp [of k t] H(3) by simp
        from in_lru_order_step_view [OF old d rf, of s is_load] o H(7) True
        show ?thesis by simp
      next
        case False
        with j H(6,8) o have "lru_order s j = Some ls'" by simp
        with step.IH j H(6) have old: "in_lru_order g tr j ls'" by simp
        have "\<not> refers g r j t" for t
          using rp [of j t] False H(3) by simp
        from ref_times_other [OF this] old show ?thesis
          by (simp add: in_lru_order_def)
      qed
    qed
  qed
qed

text \<open>
  C2. When an access misses in a set that holds exactly \<open>E\<close> lines (\<open>E\<close> at least 1) and
  the allocation of the new line succeeds, the access succeeds; the line that leaves the set
  is the first of its order and is freed; every line that stays was referenced after the
  last reference to the one that leaves; and a new line with the tag of the access is the
  last of the order, dirty exactly when the access is a store.
\<close>

theorem capacity_miss_evicts_lru:
  assumes "run_trace ev g tr = Inr st"
    and "parsing_line g r = Inr (is_load, tg, sn)" and "0 \<le> sint sn"
    and "lru_order st (nat (sint sn)) = Some ls"
    and "tg \<notin> set (map (fst \<circ> snd) ls)"
    and "int (length ls) = g_E g" and "1 \<le> g_E g"
    and "calloc_ok ev (allocs st)"
  shows "\<exists>st' a. loop_body ev g st r = Inr st' \<and>
           lru_order st' (nat (sint sn)) =
             Some (tl ls @ [(a, tg, if is_load = 0 then 1 else 0)]) \<and>
           a \<notin> fst ` set ls \<and> heap st' (fst (hd ls)) = None \<and>
           (\<forall>x\<in>set (tl ls).
              older (last_ref g tr (nat (sint sn)) (fst (snd (hd ls))))
                    (last_ref g tr (nat (sint sn)) (fst (snd x))))"
proof -
  define k where "k = nat (sint sn)"
  from run_trace_inv [OF assms(1)] obtain A where A: "cache_inv st A" ..
  have k: "k < length (sets st)"
    using lru_order_Some_index [OF assms(4)] by (simp add: k_def)
  have o: "lru_order st k = Some ls" using assms(4) by (simp add: k_def)
  have ls: "ls = view (heap st) (A k)"
    using lru_order_inv [OF A k] o by simp
  have tags: "map (fst \<circ> snd) ls = map (tag_at (heap st)) (A k)"
    by (simp add: ls view_tags)
  have ne: "ls \<noteq> []" using assms(6,7) by auto
  have full: "A k \<noteq> [] \<and> int (length (A k)) = g_E g"
    using ne assms(6) by (simp add: ls view_Nil length_view)
  obtain st' where st': "loop_body ev g st r = Inr st'"
    using loop_body_total [OF A assms(2,3), of ev] k full assms(8) by (auto simp: k_def)
  have fp: "first_pos tg (map (fst \<circ> snd) ls) = None"
    using assms(5) by (simp add: first_pos_None)
  have fresh: "Suc (allocs st) \<notin> fst ` set ls"
  proof -
    have "fst ` set ls = set (A k)" using view_addrs [of "heap st" "A k"] ls by (metis set_map)
    with cache_inv_set(4) [OF A k] show ?thesis by auto
  qed
  have hist: "in_lru_order g tr k ls"
    using lru_history [OF assms(1)] k o by blast
  obtain x rest where xr: "ls = x # rest" using ne by (cases ls) auto
  have old: "\<forall>y\<in>set (tl ls). older (last_ref g tr k (fst (snd (hd ls)))) (last_ref g tr k (fst (snd y)))"
    using hist by (simp add: in_lru_order_def ref_times_def xr)
  show ?thesis
  proof (rule loop_body_abs [OF A st'])
    fix is_load' tg' sn' k' A' ls'
    assume H: "parsing_line g r = Inr (is_load', tg', sn')" "k' = nat (sint sn')"
      "lru_order st k' = Some ls'"
      "lru_order st' k' = Some (step_view g st is_load' tg' ls')"
      "first_pos tg' (map (fst \<circ> snd) ls') = None \<longrightarrow>
       calloc_ok ev (allocs st) \<and> allocs st' = Suc (allocs st) \<and>
       (ls' \<noteq> [] \<and> int (length ls') = g_E g \<longrightarrow> heap st' (fst (hd ls')) = None)"
    from H(1) assms(2) have e: "is_load' = is_load" "tg' = tg" "sn' = sn" by simp_all
    from H(2,3) o have l: "k' = k" "ls' = ls" by (simp_all add: e k_def)
    have sv: "step_view g st is_load tg ls =
        tl ls @ [(Suc (allocs st), tg, if is_load = 0 then 1 else 0)]"
      using fp ne assms(6) by (simp add: step_view_def new_entry_def)
    have freed: "heap st' (fst (hd ls)) = None"
      using H(5) fp ne assms(6) by (simp add: e l)
    have "loop_body ev g st r = Inr st' \<and>
           lru_order st' (nat (sint sn)) =
             Some (tl ls @ [(Suc (allocs st), tg, if is_load = 0 then 1 else 0)]) \<and>
           Suc (allocs st) \<notin> fst ` set ls \<and> heap st' (fst (hd ls)) = None \<and>
           (\<forall>x\<in>set (tl ls).
              older (last_ref g tr (nat (sint sn)) (fst (snd (hd ls))))
                    (last_ref g tr (nat (sint sn)) (fst (snd x))))"
      using st' H(4) sv fresh freed old by (simp add: e l k_def)
    then show ?thesis by blast
  qed
qed

theorem capacity_miss_evicts_lru_witness:
  "\<exists>st st'. run_trace ok_env (geometry 0 2 0) [load 5, store 6, load 5] = Inr st \<and>
     parsing_line (geometry 0 2 0) (load 7) = Inr (1, 7, 0) \<and>
     lru_order st 0 = Some [(4, 6, 1), (3, 5, 0)] \<and>
     int (length [(4 :: addr, 6 :: long, 1 :: int), (3, 5, 0)]) = g_E (geometry 0 2 0) \<and>
     calloc_ok ok_env (allocs st) \<and>
     loop_body ok_env (geometry 0 2 0) st (load 7) = Inr st' \<and>
     lru_order st' 0 = Some [(3, 5, 0), (5, 7, 0)] \<and> heap st' 4 = None \<and>
     older (last_ref (geometry 0 2 0) [load 5, store 6, load 5] 0 6)
           (last_ref (geometry 0 2 0) [load 5, store 6, load 5] 0 5)"
proof -
  obtain st where st: "run_trace ok_env (geometry 0 2 0) [load 5, store 6, load 5] = Inr st"
    and v: "lru_order st 0 = Some [(4, 6, 1), (3, 5, 0)]" "allocs st = 4"
    by (simp add: model_defs example_defs view_defs)
  have p: "parsing_line (geometry 0 2 0) (load 7) = Inr (1, 7, 0)"
    by (simp add: parsing_line_def shr_long_def example_defs)
  have z: "0 \<le> sint (0 :: long)" by simp
  have v': "lru_order st (nat (sint (0 :: long))) = Some [(4, 6, 1), (3, 5, 0)]"
    using v by simp
  have m: "(7 :: long) \<notin> set (map (fst \<circ> snd) [(4 :: addr, 6 :: long, 1 :: int), (3, 5, 0)])" by simp
  have f: "int (length [(4 :: addr, 6 :: long, 1 :: int), (3, 5, 0)]) = g_E (geometry 0 2 0)"
    by (simp add: geometry_def)
  have E: "1 \<le> g_E (geometry 0 2 0)" by (simp add: geometry_def)
  have c: "calloc_ok ok_env (allocs st)" by (simp add: ok_env_def)
  from capacity_miss_evicts_lru [OF st p z v' m f E c] obtain st' a where
    r: "loop_body ok_env (geometry 0 2 0) st (load 7) = Inr st'"
      "lru_order st' (nat (sint (0 :: long))) = Some (tl [(4, 6, 1), (3, 5, 0)] @ [(a, 7, if (1::int) = 0 then 1 else 0)])"
      "heap st' (fst (hd [(4 :: addr, 6 :: long, 1 :: int), (3, 5, 0)])) = None"
      "\<forall>x\<in>set (tl [(4 :: addr, 6 :: long, 1 :: int), (3, 5, 0)]).
              older (last_ref (geometry 0 2 0) [load 5, store 6, load 5] (nat (sint (0 :: long))) (fst (snd (hd [(4 :: addr, 6 :: long, 1 :: int), (3, 5, 0)]))))
                    (last_ref (geometry 0 2 0) [load 5, store 6, load 5] (nat (sint (0 :: long))) (fst (snd x)))"
    by blast
  have a: "a = 5"
    using r(1,2) st v by (auto simp add: model_defs example_defs view_defs then_do_eq_Inr)
  show ?thesis
    by (rule exI [of _ st], rule exI [of _ st']) (use st p v f c r a in simp)
qed

end
